theory Spec2Isabelle
  imports Main "HOL-Library.AList"
begin

section \<open>The remote build service, as the code sees it\<close>

text \<open>
  \<^verbatim>\<open>osclib/remote_project.py\<close> talks to the build service through three calls of the
  \<^verbatim>\<open>osc\<close> library: \<^verbatim>\<open>http_GET\<close> and \<^verbatim>\<open>http_PUT\<close> on a project's meta URL, and
  \<^verbatim>\<open>meta_get_packagelist\<close>. The library is not part of the repository, so the service is
  a value of type \<open>obs\<close> that answers these calls and records every request made.

  A Python exception is a value of type \<open>exn\<close>; a call that may raise returns
  \<open>exn + 'a\<close> together with the service after the call.
\<close>

datatype http_failure = HTTPError int | URLError

datatype exn =
    ProjectNotFound string
  | Transport http_failure
  | XMLSyntaxError
  | KeyError string
  | AttributeError

text \<open>
  An \<^verbatim>\<open>lxml\<close> element: tag, attributes in document order, text and child elements
  (comments and processing instructions, whose tag is no string, are left out: the code
  passes over them).
  The bytes of a document are represented by the tree \<^verbatim>\<open>ET.fromstring\<close> reads from
  them (\<open>Markup\<close>), or by \<open>NotMarkup\<close> when the parser rejects them;
  \<^verbatim>\<open>ET.tostring\<close> writes the bytes of a tree.
\<close>

datatype element =
  Element (tag: string) (attrib: "(string \<times> string) list")
          (elem_text: "string option") (children: "element list")

datatype content = Markup element | NotMarkup

datatype request =
    GET_meta string
  | PUT_meta string content
  | GET_packagelist string

text \<open>
  The service holds finitely many projects: \<open>prj_meta\<close> lists, by project name, what a GET
  of the project's meta URL answers (a document or a failure); a name that is not listed
  answers 404. \<open>prj_packages\<close> is the answer of the package listing, \<open>put_refused\<close>
  the failure, if any, with which the service rejects a PUT.
\<close>

record obs =
  prj_meta :: "(string \<times> (http_failure + content)) list"
  prj_packages :: "string \<Rightarrow> http_failure + string list"
  put_refused :: "string \<Rightarrow> content \<Rightarrow> http_failure option"
  requests :: "request list"

definition http_GET :: "obs \<Rightarrow> string \<Rightarrow> (http_failure + content) \<times> obs" where
  "http_GET w project_name =
     ((case map_of (prj_meta w) project_name of
         None \<Rightarrow> Inl (HTTPError 404)
       | Some answer \<Rightarrow> answer),
      w\<lparr>requests := requests w @ [GET_meta project_name]\<rparr>)"


definition meta_get_packagelist :: "obs \<Rightarrow> string \<Rightarrow> (exn + string list) \<times> obs" where
  "meta_get_packagelist w project_name =
     ((case prj_packages w project_name of
         Inl failure \<Rightarrow> Inl (Transport failure)
       | Inr pkg_list \<Rightarrow> Inr pkg_list),
      w\<lparr>requests := requests w @ [GET_packagelist project_name]\<rparr>)"

definition fromstring :: "content \<Rightarrow> exn + element" where
  "fromstring raw = (case raw of Markup root \<Rightarrow> Inr root | NotMarkup \<Rightarrow> Inl XMLSyntaxError)"


section \<open>The classes of the module\<close>

record ProjectMetadata =
  linked_projects_names :: "string list"

record RemoteProject =
  name :: string
  metadata :: "ProjectMetadata option"

text \<open>
  \<^verbatim>\<open>RemotePackage\<close> lives in \<^verbatim>\<open>osclib/remote_package.py\<close>: the code here builds one from
  a name and a project, and reads its \<^verbatim>\<open>name\<close> and its \<^verbatim>\<open>releasename()\<close>. The release
  name is a parameter \<open>releasename\<close> of every function that needs it.
\<close>

record RemotePackage =
  pkg_name :: string
  pkg_project :: string

subsection \<open>ProjectMetadata.load, save, parse\<close>

definition load :: "obs \<Rightarrow> string \<Rightarrow> (exn + content) \<times> obs" where
  "load w project_name =
     (case http_GET w project_name of
        (Inr raw, w') \<Rightarrow> (Inr raw, w')
      | (Inl (HTTPError code), w') \<Rightarrow>
          (if code = 404 then (Inl (ProjectNotFound project_name), w')
           else (Inl (Transport (HTTPError code)), w'))
      | (Inl URLError, w') \<Rightarrow> (Inl (Transport URLError), w'))"


fun parse_children :: "element list \<Rightarrow> string list \<Rightarrow> exn + string list" where
  "parse_children [] linked_projects = Inr linked_projects"
| "parse_children (child # rest) linked_projects =
     (if tag child = ''link''
      then (case map_of (attrib child) ''project'' of
              None \<Rightarrow> Inl (KeyError ''project'')
            | Some p \<Rightarrow> parse_children rest (linked_projects @ [p]))
      else parse_children rest linked_projects)"

definition parse :: "content \<Rightarrow> exn + ProjectMetadata" where
  "parse raw =
     (case fromstring raw of
        Inl e \<Rightarrow> Inl e
      | Inr data \<Rightarrow>
          (case parse_children (children data) [] of
             Inl e \<Rightarrow> Inl e
           | Inr linked_projects \<Rightarrow> Inr \<lparr>linked_projects_names = linked_projects\<rparr>))"

subsection \<open>RemoteProject.find\<close>

definition find_project :: "obs \<Rightarrow> string \<Rightarrow> (exn + RemoteProject) \<times> obs" where
  "find_project w project_name =
     (case load w project_name of
        (Inl e, w') \<Rightarrow> (Inl e, w')
      | (Inr raw, w') \<Rightarrow>
          (case parse raw of
             Inl e \<Rightarrow> (Inl e, w')
           | Inr md \<Rightarrow> (Inr \<lparr>name = project_name, metadata = Some md\<rparr>, w')))"

subsection \<open>ProjectMetadata.linked\_projects\<close>

text \<open>
  The \<^verbatim>\<open>while\<close> loop: \<open>to_process\<close> is the worklist, \<open>result\<close> the projects found so
  far. \<^verbatim>\<open>project.metadata.linked_projects_names\<close> raises AttributeError on a project
  without metadata.
\<close>

function linked_projects_loop ::
  "obs \<Rightarrow> bool \<Rightarrow> string list \<Rightarrow> RemoteProject list \<Rightarrow> (exn + RemoteProject list) \<times> obs"
where
  "linked_projects_loop w recursive [] result = (Inr result, w)"
| "linked_projects_loop w recursive (n # to_process) result =
     (if list_all (\<lambda>r. name r \<noteq> n) result
      then (case find_project w n of
              (Inl e, w') \<Rightarrow> (Inl e, w')
            | (Inr project, w') \<Rightarrow>
                (if recursive
                 then (case metadata project of
                         None \<Rightarrow> (Inl AttributeError, w')
                       | Some md \<Rightarrow>
                           linked_projects_loop w' recursive
                             (to_process @ linked_projects_names md) (result @ [project]))
                 else linked_projects_loop w' recursive to_process (result @ [project])))
      else linked_projects_loop w recursive to_process result)"
  by pat_completeness auto

definition linked_projects ::
  "obs \<Rightarrow> ProjectMetadata \<Rightarrow> bool \<Rightarrow> (exn + RemoteProject list) \<times> obs" where
  "linked_projects w self recursive =
     linked_projects_loop w recursive (linked_projects_names self) []"

subsection \<open>RemoteProject.get\_packages and \_merge\_inherited\<close>

text \<open>
  The two regular expressions, used with \<^verbatim>\<open>match\<close>:
  \<^verbatim>\<open>^patchinfo\.[0-9]+$\<close> (Python's \<^verbatim>\<open>$\<close> also matches before a final newline) and
  \<^verbatim>\<open>^kernel-livepatch-\<close>.
\<close>

definition is_digit :: "char \<Rightarrow> bool" where
  "is_digit c = (c \<in> set ''0123456789'')"

definition patchinfo_re_match :: "string \<Rightarrow> bool" where
  "patchinfo_re_match s =
     (take 10 s = ''patchinfo.'' \<and>
      takeWhile is_digit (drop 10 s) \<noteq> [] \<and>
      (dropWhile is_digit (drop 10 s) = [] \<or> dropWhile is_digit (drop 10 s) = [CHR 0x0A]))"

definition kernel_live_patch_re_match :: "string \<Rightarrow> bool" where
  "kernel_live_patch_re_match s = (take 17 s = ''kernel-livepatch-'')"

text \<open>
  A Python \<^verbatim>\<open>dict\<close> is an association list in insertion order: \<open>AList.update\<close>
  replaces the value of a key that is present and appends a new key at the end.
\<close>

type_synonym merge_dict = "(string \<times> RemotePackage) list"

definition dict_of_res :: "RemotePackage list \<Rightarrow> merge_dict" where
  "dict_of_res res = foldl (\<lambda>d pkg. AList.update (pkg_name pkg) pkg d) [] res"

text \<open>
  \<open>get_packages_direct\<close> is \<^verbatim>\<open>get_packages(inherited = False)\<close>, the call that
  \<^verbatim>\<open>_merge_inherited\<close> makes on every linked project: lines 56, 57 and 61 of the source.
\<close>

definition get_packages_direct :: "obs \<Rightarrow> RemoteProject \<Rightarrow> (exn + RemotePackage list) \<times> obs" where
  "get_packages_direct w self =
     (case meta_get_packagelist w (name self) of
        (Inl e, w') \<Rightarrow> (Inl e, w')
      | (Inr pkg_list, w') \<Rightarrow>
          (Inr (map (\<lambda>n. \<lparr>pkg_name = n, pkg_project = name self\<rparr>) pkg_list), w'))"

text \<open>The body of the inner \<^verbatim>\<open>for\<close> loop of \<^verbatim>\<open>_merge_inherited\<close>.\<close>

definition merge_step ::
  "(RemotePackage \<Rightarrow> string) \<Rightarrow> merge_dict \<Rightarrow> RemotePackage \<Rightarrow> merge_dict" where
  "merge_step releasename d pkg =
     (if pkg_name pkg \<in> set (map fst d) then d
      else if patchinfo_re_match (pkg_name pkg) then d
      else if kernel_live_patch_re_match (pkg_name pkg) then d
      else if releasename pkg \<in> set (map fst d) then d
      else AList.update (releasename pkg) pkg d)"

text \<open>The outer \<^verbatim>\<open>for\<close> loop, over the linked projects.\<close>

fun merge_loop ::
  "(RemotePackage \<Rightarrow> string) \<Rightarrow> obs \<Rightarrow> merge_dict \<Rightarrow> RemoteProject list
     \<Rightarrow> (exn + merge_dict) \<times> obs" where
  "merge_loop releasename w d [] = (Inr d, w)"
| "merge_loop releasename w d (project # rest) =
     (case get_packages_direct w project of
        (Inl e, w') \<Rightarrow> (Inl e, w')
      | (Inr pkgs, w') \<Rightarrow> merge_loop releasename w' (foldl (merge_step releasename) d pkgs) rest)"

definition merge_inherited ::
  "(RemotePackage \<Rightarrow> string) \<Rightarrow> obs \<Rightarrow> RemotePackage list \<Rightarrow> RemoteProject list
     \<Rightarrow> (exn + RemotePackage list) \<times> obs" where
  "merge_inherited releasename w res linked =
     (case merge_loop releasename w (dict_of_res res) linked of
        (Inl e, w') \<Rightarrow> (Inl e, w')
      | (Inr d, w') \<Rightarrow> (Inr (map snd d), w'))"

definition get_packages ::
  "(RemotePackage \<Rightarrow> string) \<Rightarrow> obs \<Rightarrow> RemoteProject \<Rightarrow> bool
     \<Rightarrow> (exn + RemotePackage list) \<times> obs" where
  "get_packages releasename w self inherited =
     (case meta_get_packagelist w (name self) of
        (Inl e, w1) \<Rightarrow> (Inl e, w1)
      | (Inr pkg_list, w1) \<Rightarrow>
          (let res = map (\<lambda>n. \<lparr>pkg_name = n, pkg_project = name self\<rparr>) pkg_list
           in if inherited
              then (case metadata self of
                      None \<Rightarrow> (Inl AttributeError, w1)
                    | Some md \<Rightarrow>
                        (case linked_projects w1 md True of
                           (Inl e, w2) \<Rightarrow> (Inl e, w2)
                         | (Inr linked, w2) \<Rightarrow> merge_inherited releasename w2 res linked))
              else (Inr res, w1)))"

subsection \<open>RemoteProject.create\_subproject\<close>






section \<open>The spec's description of a cloned document\<close>


section \<open>Reading a walk off the service\<close>

text \<open>
  Two views of a run of the closure walk, used to state what it does: its result, and
  the project names whose metadata it fetched, read from the requests it added to the
  log.
\<close>

definition fetched_names :: "request list \<Rightarrow> string list" where
  "fetched_names rs = concat (map (\<lambda>r. case r of GET_meta n \<Rightarrow> [n] | _ \<Rightarrow> []) rs)"

definition walk_result ::
  "obs \<Rightarrow> bool \<Rightarrow> string list \<Rightarrow> RemoteProject list \<Rightarrow> exn + RemoteProject list" where
  "walk_result w recursive q res = fst (linked_projects_loop w recursive q res)"

definition walk_fetched ::
  "obs \<Rightarrow> bool \<Rightarrow> string list \<Rightarrow> RemoteProject list \<Rightarrow> string list" where
  "walk_fetched w recursive q res =
     fetched_names (drop (length (requests w))
       (requests (snd (linked_projects_loop w recursive q res))))"

section \<open>Candidate packages\<close>

text \<open>
  The packages a project lists, and the candidates of a merge: the packages of the linked
  projects, in the order in which \<^verbatim>\<open>_merge_inherited\<close> meets them.
\<close>

definition packages_of :: "obs \<Rightarrow> string \<Rightarrow> RemotePackage list" where
  "packages_of w project_name =
     (case prj_packages w project_name of
        Inl failure \<Rightarrow> []
      | Inr pkg_list \<Rightarrow> map (\<lambda>n. \<lparr>pkg_name = n, pkg_project = project_name\<rparr>) pkg_list)"

definition candidates :: "obs \<Rightarrow> RemoteProject list \<Rightarrow> RemotePackage list" where
  "candidates w linked = concat (map (\<lambda>p. packages_of w (name p)) linked)"

section \<open>Deduplication in first-occurrence order\<close>

text \<open>The elements of a list, each once, in the order of their first occurrence.\<close>

fun first_occurrences :: "'a list \<Rightarrow> 'a list" where
  "first_occurrences [] = []"
| "first_occurrences (x # xs) = x # first_occurrences (filter (\<lambda>y. y \<noteq> x) xs)"

section \<open>The link graph\<close>

text \<open>
  The names a project's metadata links to, as the service holds them, and the names
  reachable from a list of names through these links.
\<close>

definition links_of :: "obs \<Rightarrow> string \<Rightarrow> string list" where
  "links_of w n =
     (case fst (find_project w n) of
        Inl e \<Rightarrow> []
      | Inr p \<Rightarrow> (case metadata p of None \<Rightarrow> [] | Some md \<Rightarrow> linked_projects_names md))"

inductive_set linked_closure :: "obs \<Rightarrow> string list \<Rightarrow> string set"
  for w :: obs and seed :: "string list" where
  direct: "n \<in> set seed \<Longrightarrow> n \<in> linked_closure w seed"
| linked: "m \<in> linked_closure w seed \<Longrightarrow> n \<in> set (links_of w m) \<Longrightarrow> n \<in> linked_closure w seed"

section \<open>Concrete services\<close>

text \<open>
  A service with one project that answers, one that fails with a server error, and one
  that cannot be reached; every other name is missing.
\<close>

definition outage_obs :: obs where
  "outage_obs =
     \<lparr>prj_meta = [(''Down'', Inl (HTTPError 500)), (''Cut'', Inl URLError),
                  (''Up'', Inr (Markup (Element ''project'' [(''name'', ''Up'')] None [])))],
      prj_packages = (\<lambda>n. if n = ''Up'' then Inr [''wine'', ''vim''] else Inl (HTTPError 404)),
      put_refused = (\<lambda>n c. None),
      requests = []\<rparr>"

text \<open>
  The service of the spec's scenario: \<open>T\<close> owns \<open>wine\<close> and links to \<open>R1\<close>; \<open>R1\<close> owns
  \<open>wine\<close>, \<open>patchinfo.42\<close> and \<open>foo\<close> and links to \<open>R2\<close>; \<open>R2\<close> owns \<open>foo.99\<close>.
\<close>

definition meta_doc :: "string \<Rightarrow> string list \<Rightarrow> content" where
  "meta_doc n links =
     Markup (Element ''project'' [(''name'', n)] None
       ([Element ''title'' [] (Some ''A project'') [], Element ''description'' [] None []]
        @ map (\<lambda>l. Element ''link'' [(''project'', l)] None []) links))"

definition scenario_obs :: obs where
  "scenario_obs =
     \<lparr>prj_meta = [(''T'', Inr (meta_doc ''T'' [''R1''])),
                  (''R1'', Inr (meta_doc ''R1'' [''R2''])),
                  (''R2'', Inr (meta_doc ''R2'' []))],
      prj_packages = (\<lambda>n. if n = ''T'' then Inr [''wine'']
                           else if n = ''R1'' then Inr [''wine'', ''patchinfo.42'', ''foo'']
                           else if n = ''R2'' then Inr [''foo.99'']
                           else Inl (HTTPError 404)),
      put_refused = (\<lambda>n c. None),
      requests = []\<rparr>"

text \<open>
  An example of a release name: the package name up to its first dot, so that the
  maintenance name \<open>foo.99\<close> has the release name \<open>foo\<close>.
\<close>

definition strip_incident :: "RemotePackage \<Rightarrow> string" where
  "strip_incident p = takeWhile (\<lambda>c. c \<noteq> CHR ''.'') (pkg_name p)"

text \<open>
  \<open>A\<close> owns the maintenance-named package \<open>yast.7\<close> and links to \<open>B\<close>, which owns \<open>yast\<close>.
\<close>

definition alias_obs :: obs where
  "alias_obs =
     \<lparr>prj_meta = [(''A'', Inr (meta_doc ''A'' [''B''])), (''B'', Inr (meta_doc ''B'' []))],
      prj_packages = (\<lambda>n. if n = ''A'' then Inr [''yast.7'']
                           else if n = ''B'' then Inr [''yast'']
                           else Inl (HTTPError 404)),
      put_refused = (\<lambda>n c. None),
      requests = []\<rparr>"

text \<open>
  \<open>P\<close> owns \<open>vim\<close> and links to \<open>Q\<close>, which owns a patchinfo, a kernel live patch, the
  package \<open>kernel-livepatch\<close> and \<open>vim\<close>.
\<close>

definition livepatch_obs :: obs where
  "livepatch_obs =
     \<lparr>prj_meta = [(''P'', Inr (meta_doc ''P'' [''Q''])), (''Q'', Inr (meta_doc ''Q'' []))],
      prj_packages = (\<lambda>n. if n = ''P'' then Inr [''vim'']
                           else if n = ''Q''
                             then Inr [''patchinfo.1002'', ''kernel-livepatch-5_3'',
                                       ''kernel-livepatch'', ''vim'']
                           else Inl (HTTPError 404)),
      put_refused = (\<lambda>n c. None),
      requests = []\<rparr>"

text \<open>
  A cyclic link graph: \<open>X\<close> links to itself and to \<open>Y\<close> (twice), \<open>Y\<close> links back to \<open>X\<close>
  and to \<open>Z\<close>, and \<open>Z\<close> links to nothing.
\<close>

definition cycle_obs :: obs where
  "cycle_obs =
     \<lparr>prj_meta = [(''X'', Inr (meta_doc ''X'' [''X'', ''Y'', ''Y''])),
                  (''Y'', Inr (meta_doc ''Y'' [''X'', ''Z''])),
                  (''Z'', Inr (meta_doc ''Z'' []))],
      prj_packages = (\<lambda>n. Inr []),
      put_refused = (\<lambda>n c. None),
      requests = []\<rparr>"



section \<open>Termination of the closure walk\<close>

lemma find_project_store:
  "snd (find_project w n) = w\<lparr>requests := requests w @ [GET_meta n]\<rparr>"
  by (simp add: find_project_def load_def http_GET_def
      split: option.splits sum.splits http_failure.splits)

lemma find_project_Inr:
  assumes "find_project w n = (Inr p, w')"
  shows "n \<in> fst ` set (prj_meta w)" and "name p = n" and "prj_meta w' = prj_meta w"
proof -
  from assms obtain r where "map_of (prj_meta w) n = Some r"
    by (auto simp: find_project_def load_def http_GET_def
        split: option.splits sum.splits http_failure.splits if_splits)
  then show "n \<in> fst ` set (prj_meta w)"
    by (metis map_of_SomeD fst_conv image_eqI)
  from assms show "name p = n"
    by (auto simp: find_project_def load_def http_GET_def
        split: option.splits sum.splits http_failure.splits if_splits)
  from find_project_store [of w n] assms show "prj_meta w' = prj_meta w"
    by simp
qed

lemma unresolved_shrinks:
  assumes "list_all (\<lambda>r. name r \<noteq> n) result" and "find_project w n = (Inr p, w')"
  shows "fst ` set (prj_meta w') - name ` set (result @ [p])
           \<subset> fst ` set (prj_meta w) - name ` set result"
proof -
  from assms(2) have n: "n \<in> fst ` set (prj_meta w)" and p: "name p = n"
    and w': "prj_meta w' = prj_meta w"
    by (rule find_project_Inr)+
  from assms(1) have "n \<notin> name ` set result"
    by (auto simp: list_all_iff)
  with n p w' show ?thesis by auto
qed

text \<open>
  The walk ends on every service: a step either resolves a listed project that is not
  yet in the result, or shortens the worklist.
\<close>

termination linked_projects_loop
proof (relation "inv_image (finite_psubset <*lex*> less_than)
         (\<lambda>(w, recursive, to_process, result).
            (fst ` set (prj_meta w) - name ` set result, length to_process))",
       goal_cases)
  case 1
  show ?case by auto
next
  case (2 w recursive n to_process result x y b x2)
  then have "find_project w n = (Inr b, y)" by simp
  with 2(1) show ?case
    by (simp add: finite_psubset_def unresolved_shrinks del: set_append)
next
  case (3 w recursive n to_process result x y b)
  then have "find_project w n = (Inr b, y)" by simp
  with 3(1) show ?case
    by (simp add: finite_psubset_def unresolved_shrinks del: set_append)
next
  case (4 w recursive n to_process result)
  show ?case by simp
qed

section \<open>Helper lemmas: cloning a document\<close>



section \<open>Helper lemmas: the closure walk\<close>

lemma find_project_fst_cong:
  "prj_meta w = prj_meta v \<Longrightarrow> fst (find_project w n) = fst (find_project v n)"
  by (simp add: find_project_def load_def http_GET_def
      split: option.splits sum.splits http_failure.splits)

lemma find_project_eq:
  "find_project w n = (fst (find_project w n), w\<lparr>requests := requests w @ [GET_meta n]\<rparr>)"
  using find_project_store [of w n] by (simp add: prod_eq_iff)

lemma find_project_shape:
  assumes "fst (find_project w n) = Inr p"
  shows "\<exists>md. p = \<lparr>name = n, metadata = Some md\<rparr>"
  using assms
  by (auto simp: find_project_def split: prod.splits sum.splits)

text \<open>
  The walk only appends GETs to the log, and neither its result nor the names it fetches
  depend on the log it starts from.
\<close>

lemma linked_projects_loop_frame:
  assumes "prj_meta w = prj_meta v"
  shows "\<exists>r ns.
     linked_projects_loop w recursive q res = (r, w\<lparr>requests := requests w @ map GET_meta ns\<rparr>)
   \<and> linked_projects_loop v recursive q res = (r, v\<lparr>requests := requests v @ map GET_meta ns\<rparr>)"
  using assms
proof (induction w recursive q res arbitrary: v rule: linked_projects_loop.induct)
  case (1 w recursive result)
  show ?case by (intro exI [of _ "Inr result"] exI [of _ "[]"]) simp
next
  case (2 w recursive n to_process result)
  let ?w' = "w\<lparr>requests := requests w @ [GET_meta n]\<rparr>"
  let ?v' = "v\<lparr>requests := requests v @ [GET_meta n]\<rparr>"
  have fw: "find_project w n = (fst (find_project w n), ?w')" by (rule find_project_eq)
  have fv: "find_project v n = (fst (find_project w n), ?v')"
    using find_project_eq [of v n] find_project_fst_cong [OF "2.prems", of n] by simp
  have m: "prj_meta ?w' = prj_meta ?v'" using "2.prems" by simp
  have shift: "\<And>u ns. u\<lparr>requests := requests u @ [GET_meta n]\<rparr>
        \<lparr>requests := requests (u\<lparr>requests := requests u @ [GET_meta n]\<rparr>) @ map GET_meta ns\<rparr>
      = (u::obs)\<lparr>requests := requests u @ map GET_meta (n # ns)\<rparr>"
    by simp
  show ?case
  proof (cases "list_all (\<lambda>r. name r \<noteq> n) result")
    case False
    with "2.IH"(3) [OF False "2.prems"] show ?thesis by simp
  next
    case True
    show ?thesis
    proof (cases "fst (find_project w n)")
      case (Inl e)
      with True fw fv show ?thesis
        by (intro exI [of _ "Inl e"] exI [of _ "[n]"]) simp
    next
      case (Inr b)
      show ?thesis
      proof (cases recursive)
        case False
        from "2.IH"(2) [OF True fw [symmetric] Inr False m]
        obtain r ns where
          "linked_projects_loop ?w' recursive to_process (result @ [b])
             = (r, ?w'\<lparr>requests := requests ?w' @ map GET_meta ns\<rparr>)"
          "linked_projects_loop ?v' recursive to_process (result @ [b])
             = (r, ?v'\<lparr>requests := requests ?v' @ map GET_meta ns\<rparr>)"
          by blast
        with True Inr False fw fv show ?thesis
          unfolding shift by (intro exI [of _ r] exI [of _ "n # ns"]) simp
      next
        case rec: True
        show ?thesis
        proof (cases "metadata b")
          case None
          with True Inr rec fw fv show ?thesis
            by (intro exI [of _ "Inl AttributeError"] exI [of _ "[n]"]) simp
        next
          case (Some md)
          from "2.IH"(1) [OF True fw [symmetric] Inr rec Some m]
          obtain r ns where
            "linked_projects_loop ?w' recursive (to_process @ linked_projects_names md) (result @ [b])
               = (r, ?w'\<lparr>requests := requests ?w' @ map GET_meta ns\<rparr>)"
            "linked_projects_loop ?v' recursive (to_process @ linked_projects_names md) (result @ [b])
               = (r, ?v'\<lparr>requests := requests ?v' @ map GET_meta ns\<rparr>)"
            by blast
          with True Inr rec Some fw fv show ?thesis
            unfolding shift by (intro exI [of _ r] exI [of _ "n # ns"]) simp
        qed
      qed
    qed
  qed
qed

lemma fetched_names_simps [simp]:
  "fetched_names [] = []"
  "fetched_names (GET_meta n # rs) = n # fetched_names rs"
  "fetched_names (GET_packagelist n # rs) = fetched_names rs"
  "fetched_names (PUT_meta n c # rs) = fetched_names rs"
  "fetched_names (rs @ rs') = fetched_names rs @ fetched_names rs'"
  by (simp_all add: fetched_names_def)

lemma fetched_names_GETs [simp]: "fetched_names (map GET_meta ns) = ns"
  by (induction ns) simp_all

lemma linked_projects_loop_eq:
  "linked_projects_loop w recursive q res =
     (walk_result w recursive q res,
      w\<lparr>requests := requests w @ map GET_meta (walk_fetched w recursive q res)\<rparr>)"
proof -
  from linked_projects_loop_frame [of w w recursive q res]
  obtain r ns where
    "linked_projects_loop w recursive q res = (r, w\<lparr>requests := requests w @ map GET_meta ns\<rparr>)"
    by blast
  then show ?thesis
    by (simp add: walk_result_def walk_fetched_def)
qed

lemma walk_cong:
  assumes "prj_meta w = prj_meta v"
  shows "walk_result w recursive q res = walk_result v recursive q res"
    and "walk_fetched w recursive q res = walk_fetched v recursive q res"
proof -
  from linked_projects_loop_frame [OF assms, of recursive q res]
  obtain r ns where
    "linked_projects_loop w recursive q res = (r, w\<lparr>requests := requests w @ map GET_meta ns\<rparr>)"
    "linked_projects_loop v recursive q res = (r, v\<lparr>requests := requests v @ map GET_meta ns\<rparr>)"
    by blast
  then show "walk_result w recursive q res = walk_result v recursive q res"
    and "walk_fetched w recursive q res = walk_fetched v recursive q res"
    by (simp_all add: walk_result_def walk_fetched_def)
qed

lemma walk_log_irrelevant [simp]:
  "walk_result (w\<lparr>requests := l\<rparr>) recursive q res = walk_result w recursive q res"
  "walk_fetched (w\<lparr>requests := l\<rparr>) recursive q res = walk_fetched w recursive q res"
  by (rule walk_cong, simp)+

lemma walk_Nil [simp]:
  "walk_result w recursive [] res = Inr res" "walk_fetched w recursive [] res = []"
  by (simp_all add: walk_result_def walk_fetched_def)

lemma walk_skip:
  assumes "\<not> list_all (\<lambda>r. name r \<noteq> n) res"
  shows "walk_result w recursive (n # q) res = walk_result w recursive q res"
    and "walk_fetched w recursive (n # q) res = walk_fetched w recursive q res"
  using assms by (simp_all add: walk_result_def walk_fetched_def)

lemma walk_fail:
  assumes "list_all (\<lambda>r. name r \<noteq> n) res" and "fst (find_project w n) = Inl e"
  shows "walk_result w recursive (n # q) res = Inl e"
    and "walk_fetched w recursive (n # q) res = [n]"
proof -
  from assms find_project_eq [of w n]
  have "linked_projects_loop w recursive (n # q) res
          = (Inl e, w\<lparr>requests := requests w @ [GET_meta n]\<rparr>)"
    by simp
  then show "walk_result w recursive (n # q) res = Inl e"
    and "walk_fetched w recursive (n # q) res = [n]"
    by (simp_all add: walk_result_def walk_fetched_def)
qed

lemma walk_resolve:
  assumes "list_all (\<lambda>r. name r \<noteq> n) res"
    and "fst (find_project w n) = Inr \<lparr>name = n, metadata = Some md\<rparr>"
  shows "walk_result w recursive (n # q) res =
           walk_result w recursive (if recursive then q @ linked_projects_names md else q)
             (res @ [\<lparr>name = n, metadata = Some md\<rparr>])"
    and "walk_fetched w recursive (n # q) res =
           n # walk_fetched w recursive (if recursive then q @ linked_projects_names md else q)
             (res @ [\<lparr>name = n, metadata = Some md\<rparr>])"
proof -
  let ?w' = "w\<lparr>requests := requests w @ [GET_meta n]\<rparr>"
  let ?q' = "if recursive then q @ linked_projects_names md else q"
  let ?res' = "res @ [\<lparr>name = n, metadata = Some md\<rparr>]"
  from assms find_project_eq [of w n]
  have "linked_projects_loop w recursive (n # q) res = linked_projects_loop ?w' recursive ?q' ?res'"
    by simp
  also have "\<dots> = (walk_result w recursive ?q' ?res',
      w\<lparr>requests := requests w @ map GET_meta (n # walk_fetched w recursive ?q' ?res')\<rparr>)"
    by (simp add: linked_projects_loop_eq [of ?w'])
  finally have *: "linked_projects_loop w recursive (n # q) res = (walk_result w recursive ?q' ?res',
      w\<lparr>requests := requests w @ map GET_meta (n # walk_fetched w recursive ?q' ?res')\<rparr>)" .
  show "walk_result w recursive (n # q) res = walk_result w recursive ?q' ?res'"
    unfolding walk_result_def [of w recursive "n # q" res] * by simp
  show "walk_fetched w recursive (n # q) res = n # walk_fetched w recursive ?q' ?res'"
    unfolding walk_fetched_def [of w recursive "n # q" res] * by simp
qed

lemma walk_induct [case_names Nil Skip Fail Resolve]:
  assumes nil: "\<And>res. P [] res"
    and skip: "\<And>n q res. \<not> list_all (\<lambda>r. name r \<noteq> n) res \<Longrightarrow> P q res \<Longrightarrow> P (n # q) res"
    and fail: "\<And>n q res e. list_all (\<lambda>r. name r \<noteq> n) res \<Longrightarrow>
                 fst (find_project w n) = Inl e \<Longrightarrow> P (n # q) res"
    and resolve: "\<And>n q res md. list_all (\<lambda>r. name r \<noteq> n) res \<Longrightarrow>
                 fst (find_project w n) = Inr \<lparr>name = n, metadata = Some md\<rparr> \<Longrightarrow>
                 P (if recursive then q @ linked_projects_names md else q)
                   (res @ [\<lparr>name = n, metadata = Some md\<rparr>]) \<Longrightarrow>
                 P (n # q) res"
  shows "P q res"
proof -
  have "prj_meta v = prj_meta w \<longrightarrow> r = recursive \<longrightarrow> P q res" for v :: obs and r
  proof (induction v r q res rule: linked_projects_loop.induct)
    case (1 v r result)
    show ?case by (simp add: nil)
  next
    case (2 v r n to_process result)
    show ?case
    proof (intro impI)
      assume m: "prj_meta v = prj_meta w" and r: "r = recursive"
      let ?v' = "v\<lparr>requests := requests v @ [GET_meta n]\<rparr>"
      have fv: "(fst (find_project v n), ?v') = find_project v n"
        by (rule find_project_eq [symmetric])
      have fw: "fst (find_project v n) = fst (find_project w n)"
        by (rule find_project_fst_cong [OF m])
      show "P (n # to_process) result"
      proof (cases "list_all (\<lambda>r. name r \<noteq> n) result")
        case False
        with "2.IH"(3) m r show ?thesis by (simp add: skip)
      next
        case True
        show ?thesis
        proof (cases "fst (find_project w n)")
          case (Inl e)
          with True show ?thesis by (rule fail)
        next
          case (Inr b)
          then obtain md where b: "b = \<lparr>name = n, metadata = Some md\<rparr>"
            using find_project_shape by blast
          have "P (if recursive then to_process @ linked_projects_names md else to_process)
                  (result @ [\<lparr>name = n, metadata = Some md\<rparr>])"
          proof (cases recursive)
            case rec: True
            from "2.IH"(1) [OF True fv _ _ _, of b md] Inr b fw r rec m
            show ?thesis by simp
          next
            case False
            from "2.IH"(2) [OF True fv _ _, of b] Inr b fw r False m
            show ?thesis by simp
          qed
          with True Inr b show ?thesis by (intro resolve) simp_all
        qed
      qed
    qed
  qed
  then show ?thesis by blast
qed

section \<open>Helper lemmas: the merge\<close>

lemma get_packages_direct_eq:
  "get_packages_direct w p =
     ((case prj_packages w (name p) of
         Inl failure \<Rightarrow> Inl (Transport failure)
       | Inr pkg_list \<Rightarrow> Inr (packages_of w (name p))),
      w\<lparr>requests := requests w @ [GET_packagelist (name p)]\<rparr>)"
  by (simp add: get_packages_direct_def meta_get_packagelist_def packages_of_def
      split: sum.splits)

text \<open>
  \<open>get_packages_direct\<close> is the call \<^verbatim>\<open>get_packages(inherited = False)\<close>, so the loop of
  \<open>merge_loop\<close> makes the call that the source makes.
\<close>

lemma get_packages_direct_is_not_inherited:
  "get_packages releasename w self False = get_packages_direct w self"
  by (simp add: get_packages_def get_packages_direct_def Let_def split: prod.splits sum.splits)

lemma candidates_log_irrelevant [simp]:
  "candidates (w\<lparr>requests := l\<rparr>) linked = candidates w linked"
  by (simp add: candidates_def packages_of_def)

lemma candidates_simps [simp]:
  "candidates w [] = []"
  "candidates w (p # linked) = packages_of w (name p) @ candidates w linked"
  by (simp_all add: candidates_def)

lemma merge_loop_Inr:
  assumes "fst (merge_loop releasename w d linked) = Inr d'"
  shows "d' = foldl (merge_step releasename) d (candidates w linked)"
  using assms
proof (induction linked arbitrary: w d)
  case Nil
  then show ?case by simp
next
  case (Cons p linked)
  show ?case
  proof (cases "prj_packages w (name p)")
    case (Inl f)
    with Cons.prems show ?thesis by (simp add: get_packages_direct_eq)
  next
    case (Inr pkg_list)
    with Cons.prems Cons.IH [of "w\<lparr>requests := requests w @ [GET_packagelist (name p)]\<rparr>"
        "foldl (merge_step releasename) d (packages_of w (name p))"]
    show ?thesis by (simp add: get_packages_direct_eq)
  qed
qed

lemma linked_projects_eq:
  "linked_projects w md recursive =
     (walk_result w recursive (linked_projects_names md) [],
      w\<lparr>requests := requests w
            @ map GET_meta (walk_fetched w recursive (linked_projects_names md) [])\<rparr>)"
  by (simp add: linked_projects_def linked_projects_loop_eq)

lemma get_packages_inherited_Inr:
  assumes "fst (get_packages releasename w self True) = Inr ps"
  shows "\<exists>pkg_list md linked.
      prj_packages w (name self) = Inr pkg_list
    \<and> metadata self = Some md
    \<and> fst (linked_projects w md True) = Inr linked
    \<and> ps = map snd (foldl (merge_step releasename)
                (dict_of_res (packages_of w (name self))) (candidates w linked))"
proof -
  from assms obtain pkg_list where l: "prj_packages w (name self) = Inr pkg_list"
    by (cases "prj_packages w (name self)")
       (auto simp: get_packages_def meta_get_packagelist_def)
  let ?w1 = "w\<lparr>requests := requests w @ [GET_packagelist (name self)]\<rparr>"
  from assms l obtain md where md: "metadata self = Some md"
    by (cases "metadata self") (auto simp: get_packages_def meta_get_packagelist_def Let_def)
  let ?w2 = "?w1\<lparr>requests := requests ?w1
            @ map GET_meta (walk_fetched ?w1 True (linked_projects_names md) [])\<rparr>"
  from assms l md obtain linked where
    lk: "walk_result w True (linked_projects_names md) [] = Inr linked"
    by (cases "walk_result w True (linked_projects_names md) []")
       (auto simp: get_packages_def meta_get_packagelist_def Let_def linked_projects_eq)
  from assms l md lk have
    "fst (merge_inherited releasename ?w2 (packages_of w (name self)) linked) = Inr ps"
    by (simp add: get_packages_def meta_get_packagelist_def Let_def linked_projects_eq
        packages_of_def)
  then obtain d' where
    "fst (merge_loop releasename ?w2 (dict_of_res (packages_of w (name self))) linked) = Inr d'"
    and ps: "ps = map snd d'"
    by (auto simp: merge_inherited_def split: prod.splits sum.splits)
  from merge_loop_Inr [OF this(1)] ps l md lk show ?thesis
    by (simp add: linked_projects_eq)
qed

lemma update_fresh:
  "k \<notin> fst ` set d \<Longrightarrow> AList.update k v d = d @ [(k, v)]"
  by (induction d) auto

lemma merge_step_cases:
  "merge_step releasename d c = d
   \<or> (merge_step releasename d c = d @ [(releasename c, c)]
      \<and> pkg_name c \<notin> fst ` set d \<and> releasename c \<notin> fst ` set d
      \<and> \<not> patchinfo_re_match (pkg_name c) \<and> \<not> kernel_live_patch_re_match (pkg_name c))"
  by (simp add: merge_step_def update_fresh)

lemma merge_step_inserts:
  assumes "pkg_name c \<notin> fst ` set d" and "releasename c \<notin> fst ` set d"
    and "\<not> patchinfo_re_match (pkg_name c)" and "\<not> kernel_live_patch_re_match (pkg_name c)"
  shows "merge_step releasename d c = d @ [(releasename c, c)]"
  using assms by (simp add: merge_step_def update_fresh)

text \<open>
  What the merge adds to a dictionary \<open>d\<close>: entries keyed by release name, with distinct
  keys, for candidates that match neither pattern and whose name and release name are
  not keys of \<open>d\<close>.
\<close>

lemma foldl_merge_step:
  "\<exists>new. foldl (merge_step releasename) d cs = d @ new
     \<and> map fst new = map releasename (map snd new)
     \<and> distinct (map fst new)
     \<and> set (map snd new) \<subseteq> set cs
     \<and> (\<forall>p \<in> set (map snd new).
            pkg_name p \<notin> fst ` set d \<and> releasename p \<notin> fst ` set d
          \<and> \<not> patchinfo_re_match (pkg_name p) \<and> \<not> kernel_live_patch_re_match (pkg_name p))"
proof (induction cs arbitrary: d)
  case Nil
  show ?case by (intro exI [of _ "[]"]) simp
next
  case (Cons c cs)
  from merge_step_cases [of releasename d c] show ?case
  proof
    assume same: "merge_step releasename d c = d"
    from Cons.IH [of d] obtain new where
      "foldl (merge_step releasename) d cs = d @ new"
      "map fst new = map releasename (map snd new)" "distinct (map fst new)"
      "set (map snd new) \<subseteq> set cs"
      "\<forall>p \<in> set (map snd new).
            pkg_name p \<notin> fst ` set d \<and> releasename p \<notin> fst ` set d
          \<and> \<not> patchinfo_re_match (pkg_name p) \<and> \<not> kernel_live_patch_re_match (pkg_name p)"
      by blast
    with same show ?thesis
      by (intro exI [of _ new]) auto
  next
    assume ins: "merge_step releasename d c = d @ [(releasename c, c)]
      \<and> pkg_name c \<notin> fst ` set d \<and> releasename c \<notin> fst ` set d
      \<and> \<not> patchinfo_re_match (pkg_name c) \<and> \<not> kernel_live_patch_re_match (pkg_name c)"
    from Cons.IH [of "d @ [(releasename c, c)]"] obtain new where new:
      "foldl (merge_step releasename) (d @ [(releasename c, c)]) cs = (d @ [(releasename c, c)]) @ new"
      "map fst new = map releasename (map snd new)" "distinct (map fst new)"
      "set (map snd new) \<subseteq> set cs"
      "\<forall>p \<in> set (map snd new).
            pkg_name p \<notin> fst ` set (d @ [(releasename c, c)])
          \<and> releasename p \<notin> fst ` set (d @ [(releasename c, c)])
          \<and> \<not> patchinfo_re_match (pkg_name p) \<and> \<not> kernel_live_patch_re_match (pkg_name p)"
      by blast
    from new(5) have "\<forall>p \<in> set (map snd new). releasename p \<noteq> releasename c"
      by simp
    with new(2) have "releasename c \<notin> set (map fst new)"
      by auto
    with ins new show ?thesis
      by (intro exI [of _ "(releasename c, c) # new"]) auto
  qed
qed

lemma foldl_merge_step_keys:
  "fst ` set (foldl (merge_step releasename) d cs) \<subseteq> fst ` set d \<union> releasename ` set cs"
proof -
  from foldl_merge_step [of releasename d cs] obtain new where
    "foldl (merge_step releasename) d cs = d @ new"
    "map fst new = map releasename (map snd new)" "set (map snd new) \<subseteq> set cs"
    by blast
  then have "fst ` set new \<subseteq> releasename ` set cs"
    by (metis image_mono image_set list.set_map)
  with \<open>foldl (merge_step releasename) d cs = d @ new\<close> show ?thesis by auto
qed

lemma foldl_merge_step_present:
  assumes "pkg_name c \<notin> fst ` set d" "releasename c \<notin> fst ` set d"
    and "\<forall>q \<in> set pre. releasename q \<noteq> pkg_name c \<and> releasename q \<noteq> releasename c"
    and "\<not> patchinfo_re_match (pkg_name c)" and "\<not> kernel_live_patch_re_match (pkg_name c)"
  shows "c \<in> snd ` set (foldl (merge_step releasename) d (pre @ c # post))"
proof -
  let ?d1 = "foldl (merge_step releasename) d pre"
  from foldl_merge_step_keys [of releasename d pre] assms(1-3)
  have "pkg_name c \<notin> fst ` set ?d1" "releasename c \<notin> fst ` set ?d1"
    by auto
  with assms(4,5) have "merge_step releasename ?d1 c = ?d1 @ [(releasename c, c)]"
    by (intro merge_step_inserts)
  moreover from foldl_merge_step [of releasename "?d1 @ [(releasename c, c)]" post]
  obtain new where
    "foldl (merge_step releasename) (?d1 @ [(releasename c, c)]) post
       = (?d1 @ [(releasename c, c)]) @ new" by blast
  ultimately have "foldl (merge_step releasename) d (pre @ c # post)
       = (?d1 @ [(releasename c, c)]) @ new" by simp
  then show ?thesis by (simp add: image_iff) 
qed

lemma dict_of_res_snoc:
  "dict_of_res (res @ [p]) = AList.update (pkg_name p) p (dict_of_res res)"
  by (simp add: dict_of_res_def)

lemma dict_of_res_Nil [simp]: "dict_of_res [] = []"
  by (simp add: dict_of_res_def)

lemma dict_of_res_keys: "fst ` set (dict_of_res res) = pkg_name ` set res"
  by (induction res rule: rev_induct) (simp_all add: dict_of_res_snoc dom_update)

lemma dict_of_res_distinct: "distinct (map fst (dict_of_res res))"
  by (induction res rule: rev_induct) (simp_all add: dict_of_res_snoc distinct_update)

lemma dict_of_res_lookup:
  assumes "inj_on pkg_name (set res)" and "p \<in> set res"
  shows "map_of (dict_of_res res) (pkg_name p) = Some p"
  using assms
proof (induction res rule: rev_induct)
  case Nil
  then show ?case by simp
next
  case (snoc x xs)
  show ?case
  proof (cases "p = x")
    case True
    then show ?thesis by (simp add: dict_of_res_snoc update_conv')
  next
    case False
    with snoc.prems have "p \<in> set xs" "pkg_name p \<noteq> pkg_name x"
      by (auto simp: inj_on_def)
    moreover from snoc.prems have "inj_on pkg_name (set xs)"
      by (auto simp: inj_on_def)
    ultimately show ?thesis
      using snoc.IH by (simp add: dict_of_res_snoc update_conv')
  qed
qed

lemma dict_of_res_values:
  assumes "inj_on pkg_name (set res)"
  shows "set (dict_of_res res) = (\<lambda>p. (pkg_name p, p)) ` set res"
proof (intro set_eqI iffI)
  fix e assume e: "e \<in> set (dict_of_res res)"
  obtain k v where kv: "e = (k, v)" by (cases e)
  from e kv have "k \<in> fst ` set (dict_of_res res)"
    by (simp add: image_iff) (metis fst_conv)
  then have "k \<in> pkg_name ` set res"
    by (simp only: dict_of_res_keys)
  then obtain p where p: "p \<in> set res" "k = pkg_name p" by blast
  from dict_of_res_lookup [OF assms p(1)] p(2) have "map_of (dict_of_res res) k = Some p"
    by simp
  moreover from e kv have "map_of (dict_of_res res) k = Some v"
    by (simp add: dict_of_res_distinct)
  ultimately have "v = p" by simp
  with p kv show "e \<in> (\<lambda>p. (pkg_name p, p)) ` set res"
    by simp
next
  fix e assume "e \<in> (\<lambda>p. (pkg_name p, p)) ` set res"
  then obtain p where p: "p \<in> set res" "e = (pkg_name p, p)" by blast
  from dict_of_res_lookup [OF assms p(1)] p(2) show "e \<in> set (dict_of_res res)"
    by (simp add: map_of_SomeD)
qed

lemma packages_of_inj: "inj_on pkg_name (set (packages_of w n))"
  by (auto simp: packages_of_def inj_on_def split: sum.splits)

lemma packages_of_Inr:
  "prj_packages w n = Inr pkg_list \<Longrightarrow>
   packages_of w n = map (\<lambda>x. \<lparr>pkg_name = x, pkg_project = n\<rparr>) pkg_list"
  by (simp add: packages_of_def)

text \<open>
  The result of a merge: the project's own packages, one per listed name, then the
  inherited ones.
\<close>

lemma merged_shape:
  fixes releasename w n cs
  defines "own \<equiv> map snd (dict_of_res (packages_of w n))"
  shows "\<exists>inh. map snd (foldl (merge_step releasename) (dict_of_res (packages_of w n)) cs)
              = own @ inh
     \<and> set own = set (packages_of w n)
     \<and> distinct (map pkg_name own)
     \<and> map_of (foldl (merge_step releasename) (dict_of_res (packages_of w n)) cs)
         = map_of (dict_of_res (packages_of w n) @ map (\<lambda>p. (releasename p, p)) inh)
     \<and> distinct (map releasename inh)
     \<and> set inh \<subseteq> set cs
     \<and> (\<forall>p \<in> set inh.
            pkg_name p \<notin> pkg_name ` set own \<and> releasename p \<notin> pkg_name ` set own
          \<and> \<not> patchinfo_re_match (pkg_name p) \<and> \<not> kernel_live_patch_re_match (pkg_name p))"
proof -
  let ?d = "dict_of_res (packages_of w n)"
  from foldl_merge_step [of releasename ?d cs] obtain new where new:
    "foldl (merge_step releasename) ?d cs = ?d @ new"
    "map fst new = map releasename (map snd new)" "distinct (map fst new)"
    "set (map snd new) \<subseteq> set cs"
    "\<forall>p \<in> set (map snd new).
            pkg_name p \<notin> fst ` set ?d \<and> releasename p \<notin> fst ` set ?d
          \<and> \<not> patchinfo_re_match (pkg_name p) \<and> \<not> kernel_live_patch_re_match (pkg_name p)"
    by blast
  have vals: "set ?d = (\<lambda>p. (pkg_name p, p)) ` set (packages_of w n)"
    by (rule dict_of_res_values [OF packages_of_inj])
  then have own_set: "set own = set (packages_of w n)"
    by (auto simp: own_def image_iff) 
  from vals have "map pkg_name own = map fst ?d"
    by (auto simp: own_def)
  with dict_of_res_distinct [of "packages_of w n"] have own_distinct: "distinct (map pkg_name own)"
    by simp
  have keys: "fst ` set ?d = pkg_name ` set own"
    using own_set by (simp add: dict_of_res_keys)
  define inh where "inh = map snd new"
  have new_eq: "new = map (\<lambda>p. (releasename p, p)) inh"
    using new(2) unfolding inh_def by (induction new) auto
  have c1: "map snd (foldl (merge_step releasename) ?d cs) = own @ inh"
    by (simp add: new(1) own_def inh_def)
  have c4: "map_of (foldl (merge_step releasename) ?d cs)
         = map_of (?d @ map (\<lambda>p. (releasename p, p)) inh)"
    using new(1) new_eq by simp
  have c5: "distinct (map releasename inh)"
    using new(3) new(2) by (simp add: inh_def)
  have c6: "set inh \<subseteq> set cs"
    using new(4) by (simp add: inh_def)
  have c7: "\<forall>p \<in> set inh.
            pkg_name p \<notin> pkg_name ` set own \<and> releasename p \<notin> pkg_name ` set own
          \<and> \<not> patchinfo_re_match (pkg_name p) \<and> \<not> kernel_live_patch_re_match (pkg_name p)"
    using new(5) unfolding keys inh_def by blast
  from c1 own_set own_distinct c4 c5 c6 c7 show ?thesis
    unfolding own_def by blast
qed

section \<open>Evaluating the concrete services\<close>

lemmas eval_defs = get_packages_def meta_get_packagelist_def linked_projects_def
  find_project_def load_def http_GET_def parse_def fromstring_def meta_doc_def
  merge_inherited_def get_packages_direct_def dict_of_res_def merge_step_def
  patchinfo_re_match_def kernel_live_patch_re_match_def is_digit_def Let_def

lemma scenario_find:
  "find_project scenario_obs ''T'' =
     (Inr \<lparr>name = ''T'', metadata = Some \<lparr>linked_projects_names = [''R1'']\<rparr>\<rparr>,
      scenario_obs\<lparr>requests := [GET_meta ''T'']\<rparr>)"
  by (simp add: eval_defs scenario_obs_def)

section \<open>Helper lemmas: the two patterns\<close>

lemma patchinfo_re_match_digits:
  assumes "ds \<noteq> []" and "\<forall>x \<in> set ds. is_digit x"
  shows "patchinfo_re_match (''patchinfo.'' @ ds)"
proof -
  from assms(2) have tw: "takeWhile is_digit ds = ds" and dw: "dropWhile is_digit ds = []"
    by simp_all
  show ?thesis
    by (simp add: patchinfo_re_match_def tw dw assms(1))
qed

lemma kernel_live_patch_re_match_prefix:
  "kernel_live_patch_re_match (''kernel-livepatch-'' @ rest)"
  by (simp add: kernel_live_patch_re_match_def)

lemma kernel_livepatch_not_excluded:
  "\<not> patchinfo_re_match ''kernel-livepatch''" "\<not> kernel_live_patch_re_match ''kernel-livepatch''"
  by (simp_all add: patchinfo_re_match_def kernel_live_patch_re_match_def)

section \<open>Helper lemmas: what the walk resolves\<close>

lemma walk_fetched_distinct:
  "distinct (walk_fetched w recursive q res)
   \<and> set (walk_fetched w recursive q res) \<inter> name ` set res = {}"
proof (induction q res rule: walk_induct [where w = w and recursive = recursive])
  case (Nil res)
  show ?case by simp
next
  case (Skip n q res)
  then show ?case by (simp add: walk_skip)
next
  case (Fail n q res e)
  then show ?case by (auto simp: walk_fail list_all_iff)
next
  case (Resolve n q res md)
  from Resolve(1) have "n \<notin> name ` set res" by (auto simp: list_all_iff)
  with Resolve(3) show ?case
    unfolding walk_resolve(2) [OF Resolve(1,2)] by auto
qed

lemma walk_result_Inr:
  assumes "walk_result w recursive q res = Inr ps"
  shows "map name ps = map name res @ walk_fetched w recursive q res
     \<and> (\<forall>p \<in> set ps. p \<in> set res \<or> fst (find_project w (name p)) = Inr p)"
  using assms
proof (induction q res rule: walk_induct [where w = w and recursive = recursive])
  case (Nil res)
  then show ?case by simp
next
  case (Skip n q res)
  then show ?case by (simp add: walk_skip)
next
  case (Fail n q res e)
  then show ?case by (simp add: walk_fail)
next
  case (Resolve n q res md)
  from Resolve(3) Resolve(4) Resolve(2) show ?case
    unfolding walk_resolve [OF Resolve(1,2)] by auto
qed

lemma walk_result_Inl:
  assumes "walk_result w recursive q res = Inl e"
  shows "\<exists>n \<in> set (walk_fetched w recursive q res). fst (find_project w n) = Inl e"
  using assms
proof (induction q res rule: walk_induct [where w = w and recursive = recursive])
  case (Nil res)
  then show ?case by simp
next
  case (Skip n q res)
  then show ?case by (simp add: walk_skip)
next
  case (Fail n q res e')
  then show ?case by (simp add: walk_fail)
next
  case (Resolve n q res md)
  from Resolve(3) Resolve(4) show ?case
    unfolding walk_resolve [OF Resolve(1,2)] by auto
qed

lemma links_of_found:
  "fst (find_project w n) = Inr \<lparr>name = n, metadata = Some md\<rparr> \<Longrightarrow>
   links_of w n = linked_projects_names md"
  by (simp add: links_of_def)

lemma walk_fetched_closed:
  assumes "set q \<subseteq> C" and "\<forall>m \<in> C. set (links_of w m) \<subseteq> C"
  shows "set (walk_fetched w recursive q res) \<subseteq> C"
  using assms(1)
proof (induction q res rule: walk_induct [where w = w and recursive = recursive])
  case (Nil res)
  show ?case by simp
next
  case (Skip n q res)
  then show ?case by (simp add: walk_skip)
next
  case (Fail n q res e)
  then show ?case by (simp add: walk_fail)
next
  case (Resolve n q res md)
  from Resolve(4) have n: "n \<in> C" and q: "set q \<subseteq> C" by simp_all
  from n assms(2) have "set (links_of w n) \<subseteq> C" by blast
  then have "set (linked_projects_names md) \<subseteq> C"
    unfolding links_of_found [OF Resolve(2)] .
  with q have "set (if recursive then q @ linked_projects_names md else q) \<subseteq> C"
    by simp
  with Resolve(3) n show ?case
    unfolding walk_resolve(2) [OF Resolve(1,2)] by simp
qed

lemma walk_result_complete:
  assumes "walk_result w True q res = Inr ps"
    and "set seed \<subseteq> name ` set res \<union> set q"
    and "\<forall>p \<in> set res. set (links_of w (name p)) \<subseteq> name ` set res \<union> set q"
  shows "linked_closure w seed \<subseteq> name ` set ps"
  using assms
proof (induction q res rule: walk_induct [where w = w and recursive = True])
  case (Nil res)
  then have ps: "ps = res" by simp
  show ?case
  proof
    fix n assume "n \<in> linked_closure w seed"
    then show "n \<in> name ` set ps"
    proof (induction rule: linked_closure.induct)
      case (direct n)
      with Nil(2) ps show ?case by auto
    next
      case (linked m n)
      with Nil(3) ps show ?case by auto
    qed
  qed
next
  case (Skip n q res)
  from Skip(1) have "n \<in> name ` set res" by (auto simp: list_all_iff)
  with Skip(4,5) have "set seed \<subseteq> name ` set res \<union> set q"
    "\<forall>p \<in> set res. set (links_of w (name p)) \<subseteq> name ` set res \<union> set q"
    by auto
  with Skip(2) Skip(3) show ?case by (simp add: walk_skip [OF Skip(1)])
next
  case (Fail n q res e)
  then show ?case by (simp add: walk_fail)
next
  case (Resolve n q res md)
  let ?p = "\<lparr>name = n, metadata = Some md\<rparr>"
  let ?q = "q @ linked_projects_names md"
  from Resolve(4) have r: "walk_result w True ?q (res @ [?p]) = Inr ps"
    unfolding walk_resolve(1) [OF Resolve(1,2)] by simp
  from Resolve(5) have s: "set seed \<subseteq> name ` set (res @ [?p]) \<union> set ?q"
    by auto
  have l: "\<forall>p \<in> set (res @ [?p]). set (links_of w (name p)) \<subseteq> name ` set (res @ [?p]) \<union> set ?q"
  proof
    fix p assume "p \<in> set (res @ [?p])"
    then consider "p \<in> set res" | "p = ?p" by auto
    then show "set (links_of w (name p)) \<subseteq> name ` set (res @ [?p]) \<union> set ?q"
    proof cases
      case 1
      with Resolve(6) have "set (links_of w (name p)) \<subseteq> name ` set res \<union> set (n # q)"
        by blast
      then show ?thesis by auto
    next
      case 2
      have "set (links_of w n) \<subseteq> set ?q"
        unfolding links_of_found [OF Resolve(2)] by simp
      with 2 show ?thesis by auto
    qed
  qed
  from Resolve(3) r s l show ?case by simp
qed

lemma first_occurrences_set [simp]: "set (first_occurrences xs) = set xs"
  by (induction xs rule: first_occurrences.induct) auto

lemma first_occurrences_distinct [simp]: "distinct (first_occurrences xs)"
  by (induction xs rule: first_occurrences.induct) auto

lemma walk_fetched_not_recursive:
  "\<exists>rest. first_occurrences (filter (\<lambda>n. n \<notin> name ` set res) q)
             = walk_fetched w False q res @ rest
     \<and> (\<forall>ps. walk_result w False q res = Inr ps \<longrightarrow> rest = [])"
proof (induction q res rule: walk_induct [where w = w and recursive = False])
  case (Nil res)
  show ?case by simp
next
  case (Skip n q res)
  from Skip(1) have "n \<in> name ` set res" by (auto simp: list_all_iff)
  with Skip(2) show ?case by (simp add: walk_skip [OF Skip(1)])
next
  case (Fail n q res e)
  from Fail(1) have "n \<notin> name ` set res" by (auto simp: list_all_iff)
  then show ?case by (simp add: walk_fail [OF Fail])
next
  case (Resolve n q res md)
  let ?p = "\<lparr>name = n, metadata = Some md\<rparr>"
  from Resolve(1) have n: "n \<notin> name ` set res" by (auto simp: list_all_iff)
  have f: "filter (\<lambda>y. y \<noteq> n) (filter (\<lambda>x. x \<notin> name ` set res) q)
         = filter (\<lambda>x. x \<notin> name ` set (res @ [?p])) q"
    by (simp add: conj_commute)
  from Resolve(3) obtain rest where
    "first_occurrences (filter (\<lambda>x. x \<notin> name ` set (res @ [?p])) q)
       = walk_fetched w False q (res @ [?p]) @ rest"
    "\<forall>ps. walk_result w False q (res @ [?p]) = Inr ps \<longrightarrow> rest = []"
    by auto
  with n f show ?case
    unfolding walk_resolve [OF Resolve(1,2)] by (intro exI [of _ rest]) simp
qed

section \<open>Helper lemmas: a link that cannot be resolved\<close>







text \<open>Every name the walk fetches, but possibly the last, is a project the service lists.\<close>

lemma walk_fetched_listed:
  "set (butlast (walk_fetched w recursive q res)) \<subseteq> fst ` set (prj_meta w)"
proof (induction q res rule: walk_induct [where w = w and recursive = recursive])
  case (Nil res)
  show ?case by simp
next
  case (Skip n q res)
  then show ?case by (simp add: walk_skip)
next
  case (Fail n q res e)
  then show ?case by (simp add: walk_fail)
next
  case (Resolve n q res md)
  from Resolve(2) find_project_eq [of w n]
  have "find_project w n = (Inr \<lparr>name = n, metadata = Some md\<rparr>,
                            w\<lparr>requests := requests w @ [GET_meta n]\<rparr>)"
    by simp
  then have "n \<in> fst ` set (prj_meta w)"
    by (rule find_project_Inr(1))
  with Resolve(3) show ?case
    unfolding walk_resolve(2) [OF Resolve(1,2)] by (auto split: if_splits)
qed

lemma walk_fetched_bounded:
  "length (walk_fetched w recursive q res) \<le> Suc (length (prj_meta w))"
proof -
  let ?ns = "walk_fetched w recursive q res"
  have "distinct (butlast ?ns)"
    using walk_fetched_distinct [of w recursive q res] by (simp add: distinct_butlast)
  then have "length (butlast ?ns) = card (set (butlast ?ns))"
    by (simp add: distinct_card)
  also have "\<dots> \<le> card (fst ` set (prj_meta w))"
    by (intro card_mono walk_fetched_listed) simp
  also have "\<dots> \<le> length (prj_meta w)"
    by (metis card_length length_map list.set_map)
  finally show ?thesis by simp
qed

text \<open>When every project the walk can meet resolves, the walk returns a result.\<close>

lemma walk_succeeds_recursive:
  assumes "\<forall>n \<in> linked_closure w seed. \<exists>p. fst (find_project w n) = Inr p"
  shows "\<exists>ps. walk_result w True seed [] = Inr ps"
proof (cases "walk_result w True seed []")
  case (Inr ps)
  then show ?thesis by (intro exI)
next
  case (Inl e)
  from walk_result_Inl [OF Inl] obtain n where
    n: "n \<in> set (walk_fetched w True seed [])" and f: "fst (find_project w n) = Inl e"
    by blast
  have closed: "\<forall>m \<in> linked_closure w seed. set (links_of w m) \<subseteq> linked_closure w seed"
    by (auto intro: linked_closure.linked)
  have "set seed \<subseteq> linked_closure w seed"
    by (auto intro: linked_closure.direct)
  then have "set (walk_fetched w True seed []) \<subseteq> linked_closure w seed"
    using closed by (rule walk_fetched_closed)
  with n have "n \<in> linked_closure w seed" by blast
  with assms obtain p where "fst (find_project w n) = Inr p" by blast
  with f show ?thesis by simp
qed

lemma walk_succeeds_not_recursive:
  assumes "\<forall>n \<in> set seed. \<exists>p. fst (find_project w n) = Inr p"
  shows "\<exists>ps. walk_result w False seed [] = Inr ps"
proof (cases "walk_result w False seed []")
  case (Inr ps)
  then show ?thesis by (intro exI)
next
  case (Inl e)
  from walk_result_Inl [OF Inl] obtain n where
    n: "n \<in> set (walk_fetched w False seed [])" and f: "fst (find_project w n) = Inl e"
    by blast
  from walk_fetched_not_recursive [of "[]" seed w] obtain rest where
    "first_occurrences seed = walk_fetched w False seed [] @ rest"
    by auto
  then have "set (walk_fetched w False seed []) \<subseteq> set (first_occurrences seed)"
    by simp
  with n have "n \<in> set seed" by auto
  with assms obtain p where "fst (find_project w n) = Inr p" by blast
  with f show ?thesis by simp
qed

section \<open>Loading metadata\<close>

text \<open>
  C8: \<^verbatim>\<open>load\<close> raises \<open>ProjectNotFound\<close> exactly when the GET of the project's meta
  URL fails with HTTP status 404. Every other failure of the GET reaches the caller as
  the failure it is, a document is returned as it is, and the GET is made once.
\<close>

theorem load_ProjectNotFound_iff_404:
  "((\<exists>m. fst (load w n) = Inl (ProjectNotFound m)) \<longleftrightarrow> fst (http_GET w n) = Inl (HTTPError 404))
   \<and> (fst (http_GET w n) = Inl (HTTPError 404) \<longrightarrow> fst (load w n) = Inl (ProjectNotFound n))
   \<and> (\<forall>f. fst (http_GET w n) = Inl f \<and> f \<noteq> HTTPError 404 \<longrightarrow> fst (load w n) = Inl (Transport f))
   \<and> (\<forall>raw. fst (http_GET w n) = Inr raw \<longrightarrow> fst (load w n) = Inr raw)
   \<and> snd (load w n) = w\<lparr>requests := requests w @ [GET_meta n]\<rparr>"
  by (auto simp: load_def http_GET_def split: option.splits sum.splits http_failure.splits)

theorem load_ProjectNotFound_iff_404_witness:
  "fst (load outage_obs ''Gone'') = Inl (ProjectNotFound ''Gone'')
   \<and> fst (load outage_obs ''Down'') = Inl (Transport (HTTPError 500))
   \<and> fst (load outage_obs ''Cut'') = Inl (Transport URLError)
   \<and> fst (load outage_obs ''Up'') = Inr (Markup (Element ''project'' [(''name'', ''Up'')] None []))
   \<and> requests (snd (load outage_obs ''Down'')) = [GET_meta ''Down'']"
proof -
  have g: "fst (http_GET outage_obs ''Gone'') = Inl (HTTPError 404)"
    and d: "fst (http_GET outage_obs ''Down'') = Inl (HTTPError 500)"
    and c: "fst (http_GET outage_obs ''Cut'') = Inl URLError"
    and u: "fst (http_GET outage_obs ''Up'') = Inr (Markup (Element ''project'' [(''name'', ''Up'')] None []))"
    by (simp_all add: http_GET_def outage_obs_def)
  have r: "requests outage_obs = []" by (simp add: outage_obs_def)
  from g d c u r
    load_ProjectNotFound_iff_404 [of outage_obs "''Gone''"]
    load_ProjectNotFound_iff_404 [of outage_obs "''Down''"]
    load_ProjectNotFound_iff_404 [of outage_obs "''Cut''"]
    load_ProjectNotFound_iff_404 [of outage_obs "''Up''"]
  show ?thesis by simp
qed

section \<open>Packages of the project itself\<close>

text \<open>
  C10: \<^verbatim>\<open>get_packages(inherited = False)\<close> does not read the \<^verbatim>\<open>metadata\<close> field: the
  call gives the same result and leaves the same service whatever the field holds. When
  the listing answers, the result is one package per listed name, in the listing's
  order, each with this project as its project, also on a resolver whose metadata is
  \<^verbatim>\<open>None\<close>; on such a resolver the inherited call raises AttributeError.
\<close>

theorem get_packages_not_inherited_ignores_metadata:
  "get_packages releasename w (self\<lparr>metadata := m\<rparr>) False = get_packages releasename w self False
   \<and> (\<forall>pkg_list. prj_packages w (name self) = Inr pkg_list \<longrightarrow>
        get_packages releasename w self False =
          (Inr (map (\<lambda>n. \<lparr>pkg_name = n, pkg_project = name self\<rparr>) pkg_list),
           w\<lparr>requests := requests w @ [GET_packagelist (name self)]\<rparr>)
        \<and> fst (get_packages releasename w (self\<lparr>metadata := None\<rparr>) True) = Inl AttributeError)"
  by (simp add: get_packages_def get_packages_direct_def meta_get_packagelist_def Let_def
      split: sum.splits)

theorem get_packages_not_inherited_ignores_metadata_witness:
  "get_packages (\<lambda>p. pkg_name p) outage_obs \<lparr>name = ''Up'', metadata = None\<rparr> False =
     (Inr [\<lparr>pkg_name = ''wine'', pkg_project = ''Up''\<rparr>, \<lparr>pkg_name = ''vim'', pkg_project = ''Up''\<rparr>],
      outage_obs\<lparr>requests := [GET_packagelist ''Up'']\<rparr>)
   \<and> fst (get_packages (\<lambda>p. pkg_name p) outage_obs \<lparr>name = ''Up'', metadata = None\<rparr> True)
       = Inl AttributeError"
proof -
  have l: "prj_packages outage_obs ''Up'' = Inr [''wine'', ''vim'']"
    and r: "requests outage_obs = []"
    by (simp_all add: outage_obs_def)
  from l r get_packages_not_inherited_ignores_metadata
      [where releasename = "\<lambda>p. pkg_name p" and w = outage_obs
         and self = "\<lparr>name = ''Up'', metadata = None\<rparr>" and m = None]
  show ?thesis by simp
qed

section \<open>Creating a subproject\<close>



section \<open>Merging inherited packages\<close>

text \<open>
  C1: in the scenario (\<open>T\<close> owns \<open>wine\<close> and links to \<open>R1\<close>; \<open>R1\<close> owns \<open>wine\<close>,
  \<open>patchinfo.42\<close> and \<open>foo\<close> and links to \<open>R2\<close>; \<open>R2\<close> owns \<open>foo.99\<close>, whose release name
  is \<open>foo\<close>), with \<open>foo\<close> its own release name, the resolver that \<^verbatim>\<open>find\<close> returns for
  \<open>T\<close> has the linked projects \<open>R1\<close>, \<open>R2\<close>, and its inherited package list is exactly
  \<open>wine\<close> of \<open>T\<close> and \<open>foo\<close> of \<open>R1\<close>.
\<close>

theorem scenario_packages:
  assumes "releasename \<lparr>pkg_name = ''foo.99'', pkg_project = ''R2''\<rparr> = ''foo''"
    and "releasename \<lparr>pkg_name = ''foo'', pkg_project = ''R1''\<rparr> = ''foo''"
  shows "\<exists>t w1. find_project scenario_obs ''T'' = (Inr t, w1)
     \<and> fst (linked_projects w1 \<lparr>linked_projects_names = [''R1'']\<rparr> True)
         = Inr [\<lparr>name = ''R1'', metadata = Some \<lparr>linked_projects_names = [''R2'']\<rparr>\<rparr>,
                \<lparr>name = ''R2'', metadata = Some \<lparr>linked_projects_names = []\<rparr>\<rparr>]
     \<and> fst (get_packages releasename w1 t True)
         = Inr [\<lparr>pkg_name = ''wine'', pkg_project = ''T''\<rparr>,
                \<lparr>pkg_name = ''foo'', pkg_project = ''R1''\<rparr>]"
  unfolding scenario_find using assms
  by (simp add: eval_defs scenario_obs_def)

theorem scenario_packages_witness:
  "fst (get_packages strip_incident (scenario_obs\<lparr>requests := [GET_meta ''T'']\<rparr>)
         \<lparr>name = ''T'', metadata = Some \<lparr>linked_projects_names = [''R1'']\<rparr>\<rparr> True)
     = Inr [\<lparr>pkg_name = ''wine'', pkg_project = ''T''\<rparr>,
            \<lparr>pkg_name = ''foo'', pkg_project = ''R1''\<rparr>]"
proof -
  have a: "strip_incident \<lparr>pkg_name = ''foo.99'', pkg_project = ''R2''\<rparr> = ''foo''"
    and b: "strip_incident \<lparr>pkg_name = ''foo'', pkg_project = ''R1''\<rparr> = ''foo''"
    by (simp_all add: strip_incident_def)
  from scenario_packages [OF a b] show ?thesis
    unfolding scenario_find by simp
qed

text \<open>
  C3, as the claim states it, fails: \<open>A\<close> owns \<open>yast.7\<close>, whose release name is \<open>yast\<close>,
  and the linked project \<open>B\<close> owns \<open>yast\<close>. The own package is keyed by its raw name
  \<open>yast.7\<close>, so \<open>yast\<close> of \<open>B\<close> collides with no key and is inherited: the result holds
  two different packages with the same release name.
\<close>

theorem alias_of_own_package_counterexample:
  "fst (find_project alias_obs ''A'')
     = Inr \<lparr>name = ''A'', metadata = Some \<lparr>linked_projects_names = [''B'']\<rparr>\<rparr>
   \<and> fst (get_packages strip_incident alias_obs
            \<lparr>name = ''A'', metadata = Some \<lparr>linked_projects_names = [''B'']\<rparr>\<rparr> True)
       = Inr [\<lparr>pkg_name = ''yast.7'', pkg_project = ''A''\<rparr>,
              \<lparr>pkg_name = ''yast'', pkg_project = ''B''\<rparr>]
   \<and> \<lparr>pkg_name = ''yast.7'', pkg_project = ''A''\<rparr> \<noteq> \<lparr>pkg_name = ''yast'', pkg_project = ''B''\<rparr>
   \<and> strip_incident \<lparr>pkg_name = ''yast.7'', pkg_project = ''A''\<rparr>
       = strip_incident \<lparr>pkg_name = ''yast'', pkg_project = ''B''\<rparr>"
  by (simp add: eval_defs alias_obs_def strip_incident_def)

text \<open>
  C3, amended: the result is the project's own packages followed by the inherited ones,
  and the keys of the merge are distinct, where an own package is keyed by its raw name
  and an inherited one by its release name; moreover no inherited package has the raw
  name of an own package. (Nothing is said of the release names of own packages.)
\<close>

theorem merged_keys_unique:
  assumes "fst (get_packages releasename w self True) = Inr ps"
  shows "\<exists>own inh. ps = own @ inh
     \<and> set own = set (packages_of w (name self))
     \<and> distinct (map pkg_name own @ map releasename inh)
     \<and> (\<forall>p \<in> set inh. pkg_name p \<notin> pkg_name ` set own)"
proof -
  from get_packages_inherited_Inr [OF assms] obtain linked where
    ps: "ps = map snd (foldl (merge_step releasename)
                (dict_of_res (packages_of w (name self))) (candidates w linked))"
    by blast
  from merged_shape [of releasename w "name self" "candidates w linked"] ps
  obtain inh where inh:
    "ps = map snd (dict_of_res (packages_of w (name self))) @ inh"
    "set (map snd (dict_of_res (packages_of w (name self)))) = set (packages_of w (name self))"
    "distinct (map pkg_name (map snd (dict_of_res (packages_of w (name self)))))"
    "distinct (map releasename inh)"
    "\<forall>p \<in> set inh.
        pkg_name p \<notin> pkg_name ` set (map snd (dict_of_res (packages_of w (name self))))
      \<and> releasename p \<notin> pkg_name ` set (map snd (dict_of_res (packages_of w (name self))))
      \<and> \<not> patchinfo_re_match (pkg_name p) \<and> \<not> kernel_live_patch_re_match (pkg_name p)"
    by auto
  let ?own = "map snd (dict_of_res (packages_of w (name self)))"
  from inh(5) have fresh: "\<forall>p \<in> set inh. releasename p \<notin> set (map pkg_name ?own)"
    by (simp add: image_image)
  have "set (map pkg_name ?own) \<inter> set (map releasename inh) = {}"
  proof (rule equals0I)
    fix k assume "k \<in> set (map pkg_name ?own) \<inter> set (map releasename inh)"
    then have k: "k \<in> set (map pkg_name ?own)" and "k \<in> releasename ` set inh"
      by simp_all
    then obtain p where "p \<in> set inh" "k = releasename p" by blast
    with fresh k show False by blast
  qed
  then have d: "distinct (map pkg_name ?own @ map releasename inh)"
    using inh(3,4) by (simp only: distinct_append simp_thms)
  from inh(5) have n: "\<forall>p \<in> set inh. pkg_name p \<notin> pkg_name ` set ?own"
    by blast
  have "ps = ?own @ inh
     \<and> set ?own = set (packages_of w (name self))
     \<and> distinct (map pkg_name ?own @ map releasename inh)
     \<and> (\<forall>p \<in> set inh. pkg_name p \<notin> pkg_name ` set ?own)"
    using inh(1,2) d n by (intro conjI)
  then show ?thesis
    by (intro exI)
qed

theorem merged_keys_unique_witness:
  "fst (get_packages strip_incident alias_obs
          \<lparr>name = ''A'', metadata = Some \<lparr>linked_projects_names = [''B'']\<rparr>\<rparr> True)
     = Inr [\<lparr>pkg_name = ''yast.7'', pkg_project = ''A''\<rparr>,
            \<lparr>pkg_name = ''yast'', pkg_project = ''B''\<rparr>]
   \<and> (\<exists>own inh.
         [\<lparr>pkg_name = ''yast.7'', pkg_project = ''A''\<rparr>,
          \<lparr>pkg_name = ''yast'', pkg_project = ''B''\<rparr>] = own @ inh
       \<and> set own = set (packages_of alias_obs
                          (name \<lparr>name = ''A'', metadata = Some \<lparr>linked_projects_names = [''B'']\<rparr>\<rparr>))
       \<and> distinct (map pkg_name own @ map strip_incident inh)
       \<and> (\<forall>p \<in> set inh. pkg_name p \<notin> pkg_name ` set own))"
proof -
  have e: "fst (get_packages strip_incident alias_obs
          \<lparr>name = ''A'', metadata = Some \<lparr>linked_projects_names = [''B'']\<rparr>\<rparr> True)
     = Inr [\<lparr>pkg_name = ''yast.7'', pkg_project = ''A''\<rparr>,
            \<lparr>pkg_name = ''yast'', pkg_project = ''B''\<rparr>]"
    by (simp add: eval_defs alias_obs_def strip_incident_def)
  from e merged_keys_unique [OF e] show ?thesis
    by (intro conjI)
qed

text \<open>
  C4: if the project of the resolver lists a package \<open>foo\<close>, then the inherited result
  holds that package of the project itself; every package of the result whose name or
  release name is \<open>foo\<close> is one of the project's own, so a candidate of a linked project
  with that name or release name was skipped; and the own packages come first.
\<close>

theorem own_package_precedence:
  assumes "fst (get_packages releasename w self True) = Inr ps"
    and "prj_packages w (name self) = Inr pkg_list"
    and "foo \<in> set pkg_list"
  shows "\<lparr>pkg_name = foo, pkg_project = name self\<rparr> \<in> set ps
     \<and> (\<forall>c \<in> set ps. pkg_name c = foo \<or> releasename c = foo \<longrightarrow>
           pkg_project c = name self \<and> pkg_name c \<in> set pkg_list)
     \<and> (\<exists>own. take (length own) ps = own \<and> set own = set (packages_of w (name self)))"
proof -
  from get_packages_inherited_Inr [OF assms(1)] obtain linked where
    ps: "ps = map snd (foldl (merge_step releasename)
                (dict_of_res (packages_of w (name self))) (candidates w linked))"
    by blast
  let ?own = "map snd (dict_of_res (packages_of w (name self)))"
  from merged_shape [of releasename w "name self" "candidates w linked"] ps
  obtain inh where inh: "ps = ?own @ inh" "set ?own = set (packages_of w (name self))"
    "\<forall>p \<in> set inh.
        pkg_name p \<notin> pkg_name ` set ?own \<and> releasename p \<notin> pkg_name ` set ?own
      \<and> \<not> patchinfo_re_match (pkg_name p) \<and> \<not> kernel_live_patch_re_match (pkg_name p)"
    by auto
  have pk: "packages_of w (name self)
      = map (\<lambda>x. \<lparr>pkg_name = x, pkg_project = name self\<rparr>) pkg_list"
    using assms(2) by (rule packages_of_Inr)
  have "set (packages_of w (name self))
      = (\<lambda>x. \<lparr>pkg_name = x, pkg_project = name self\<rparr>) ` set pkg_list"
    unfolding pk by simp
  with inh(2) have own: "set ?own = (\<lambda>x. \<lparr>pkg_name = x, pkg_project = name self\<rparr>) ` set pkg_list"
    by simp
  have names: "pkg_name ` set ?own = set pkg_list"
    unfolding own by (simp add: image_image)
  from assms(3) have own_foo: "\<lparr>pkg_name = foo, pkg_project = name self\<rparr> \<in> set ?own"
    unfolding own by simp
  then have c1: "\<lparr>pkg_name = foo, pkg_project = name self\<rparr> \<in> set ps"
    unfolding inh(1) by simp
  have c2: "\<forall>c \<in> set ps. pkg_name c = foo \<or> releasename c = foo \<longrightarrow>
           pkg_project c = name self \<and> pkg_name c \<in> set pkg_list"
  proof (intro ballI impI)
    fix c assume c: "c \<in> set ps" and f: "pkg_name c = foo \<or> releasename c = foo"
    have "c \<notin> set inh"
    proof
      assume "c \<in> set inh"
      with inh(3) have "pkg_name c \<notin> set pkg_list" "releasename c \<notin> set pkg_list"
        unfolding names by blast+
      with f assms(3) show False by blast
    qed
    with c have "c \<in> set (packages_of w (name self))"
      unfolding inh(1) using inh(2) by auto
    then show "pkg_project c = name self \<and> pkg_name c \<in> set pkg_list"
      unfolding pk by auto
  qed
  have "take (length ?own) ps = ?own \<and> set ?own = set (packages_of w (name self))"
    using inh(1,2) by simp
  then have c3: "\<exists>own. take (length own) ps = own \<and> set own = set (packages_of w (name self))"
    by (intro exI)
  from c1 c2 c3 show ?thesis by (intro conjI)
qed

theorem own_package_precedence_witness:
  "\<lparr>pkg_name = ''wine'', pkg_project = ''T''\<rparr>
     \<in> set [\<lparr>pkg_name = ''wine'', pkg_project = ''T''\<rparr>, \<lparr>pkg_name = ''foo'', pkg_project = ''R1''\<rparr>]
   \<and> \<lparr>pkg_name = ''wine'', pkg_project = ''R1''\<rparr>
     \<notin> set [\<lparr>pkg_name = ''wine'', pkg_project = ''T''\<rparr>, \<lparr>pkg_name = ''foo'', pkg_project = ''R1''\<rparr>]
   \<and> fst (get_packages strip_incident scenario_obs
            \<lparr>name = ''T'', metadata = Some \<lparr>linked_projects_names = [''R1'']\<rparr>\<rparr> True)
       = Inr [\<lparr>pkg_name = ''wine'', pkg_project = ''T''\<rparr>, \<lparr>pkg_name = ''foo'', pkg_project = ''R1''\<rparr>]"
proof -
  have e: "fst (get_packages strip_incident scenario_obs
            \<lparr>name = ''T'', metadata = Some \<lparr>linked_projects_names = [''R1'']\<rparr>\<rparr> True)
       = Inr [\<lparr>pkg_name = ''wine'', pkg_project = ''T''\<rparr>, \<lparr>pkg_name = ''foo'', pkg_project = ''R1''\<rparr>]"
    by (simp add: eval_defs scenario_obs_def strip_incident_def)
  have l: "prj_packages scenario_obs (name \<lparr>name = ''T'', metadata = Some \<lparr>linked_projects_names = [''R1'']\<rparr>\<rparr>)
       = Inr [''wine'']"
    by (simp add: scenario_obs_def)
  have m: "''wine'' \<in> set [''wine'']" by simp
  from own_package_precedence [OF e l m] e show ?thesis
    by simp
qed

text \<open>
  C5: in the inherited result, a package named \<open>patchinfo.\<close> followed by one or more
  digits, or whose name starts with \<open>kernel-livepatch-\<close>, is one of the project's own
  packages, never an inherited one. A candidate named \<open>kernel-livepatch\<close> is in the
  result when neither its name nor its release name is the name of an own package or
  the release name of a candidate met before it.
\<close>

theorem exclusion_patterns:
  assumes "fst (get_packages releasename w self True) = Inr ps"
  shows "(\<forall>c \<in> set ps.
            (\<exists>ds. ds \<noteq> [] \<and> (\<forall>x \<in> set ds. is_digit x) \<and> pkg_name c = ''patchinfo.'' @ ds) \<longrightarrow>
            c \<in> set (packages_of w (name self)))
       \<and> (\<forall>c \<in> set ps.
            (\<exists>rest. pkg_name c = ''kernel-livepatch-'' @ rest) \<longrightarrow>
            c \<in> set (packages_of w (name self)))
       \<and> (\<forall>md linked pre c post.
            metadata self = Some md
          \<and> fst (linked_projects w md True) = Inr linked
          \<and> candidates w linked = pre @ c # post
          \<and> pkg_name c = ''kernel-livepatch''
          \<and> pkg_name c \<notin> pkg_name ` set (packages_of w (name self))
          \<and> releasename c \<notin> pkg_name ` set (packages_of w (name self))
          \<and> (\<forall>q \<in> set pre. releasename q \<noteq> pkg_name c \<and> releasename q \<noteq> releasename c)
          \<longrightarrow> c \<in> set ps)"
proof -
  from get_packages_inherited_Inr [OF assms] obtain md0 linked0 where
    md0: "metadata self = Some md0"
    and l0: "fst (linked_projects w md0 True) = Inr linked0"
    and ps: "ps = map snd (foldl (merge_step releasename)
                (dict_of_res (packages_of w (name self))) (candidates w linked0))"
    by blast
  let ?d = "dict_of_res (packages_of w (name self))"
  let ?own = "map snd ?d"
  from merged_shape [of releasename w "name self" "candidates w linked0"] ps
  obtain inh where inh: "ps = ?own @ inh" "set ?own = set (packages_of w (name self))"
    "\<forall>p \<in> set inh.
        pkg_name p \<notin> pkg_name ` set ?own \<and> releasename p \<notin> pkg_name ` set ?own
      \<and> \<not> patchinfo_re_match (pkg_name p) \<and> \<not> kernel_live_patch_re_match (pkg_name p)"
    by auto
  have own_or: "c \<in> set (packages_of w (name self)) \<or> c \<in> set inh" if "c \<in> set ps" for c
    using that inh(1,2) by auto
  have c1: "\<forall>c \<in> set ps.
            (\<exists>ds. ds \<noteq> [] \<and> (\<forall>x \<in> set ds. is_digit x) \<and> pkg_name c = ''patchinfo.'' @ ds) \<longrightarrow>
            c \<in> set (packages_of w (name self))"
  proof (intro ballI impI)
    fix c assume c: "c \<in> set ps"
      and "\<exists>ds. ds \<noteq> [] \<and> (\<forall>x \<in> set ds. is_digit x) \<and> pkg_name c = ''patchinfo.'' @ ds"
    then have "patchinfo_re_match (pkg_name c)"
      using patchinfo_re_match_digits by auto
    with inh(3) have "c \<notin> set inh" by blast
    with own_or [OF c] show "c \<in> set (packages_of w (name self))" by blast
  qed
  have c2: "\<forall>c \<in> set ps.
            (\<exists>rest. pkg_name c = ''kernel-livepatch-'' @ rest) \<longrightarrow>
            c \<in> set (packages_of w (name self))"
  proof (intro ballI impI)
    fix c assume c: "c \<in> set ps" and "\<exists>rest. pkg_name c = ''kernel-livepatch-'' @ rest"
    then have "kernel_live_patch_re_match (pkg_name c)"
      using kernel_live_patch_re_match_prefix by auto
    with inh(3) have "c \<notin> set inh" by blast
    with own_or [OF c] show "c \<in> set (packages_of w (name self))" by blast
  qed
  have c3: "\<forall>md linked pre c post.
            metadata self = Some md
          \<and> fst (linked_projects w md True) = Inr linked
          \<and> candidates w linked = pre @ c # post
          \<and> pkg_name c = ''kernel-livepatch''
          \<and> pkg_name c \<notin> pkg_name ` set (packages_of w (name self))
          \<and> releasename c \<notin> pkg_name ` set (packages_of w (name self))
          \<and> (\<forall>q \<in> set pre. releasename q \<noteq> pkg_name c \<and> releasename q \<noteq> releasename c)
          \<longrightarrow> c \<in> set ps"
  proof (intro allI impI, elim conjE)
    fix md linked pre c post
    assume md: "metadata self = Some md"
      and l: "fst (linked_projects w md True) = Inr linked"
      and cs: "candidates w linked = pre @ c # post"
      and k: "pkg_name c = ''kernel-livepatch''"
      and n1: "pkg_name c \<notin> pkg_name ` set (packages_of w (name self))"
      and n2: "releasename c \<notin> pkg_name ` set (packages_of w (name self))"
      and pre: "\<forall>q \<in> set pre. releasename q \<noteq> pkg_name c \<and> releasename q \<noteq> releasename c"
    from md md0 l l0 have "linked = linked0" by simp
    with cs have cs0: "candidates w linked0 = pre @ c # post" by simp
    have keys: "fst ` set ?d = pkg_name ` set (packages_of w (name self))"
      by (rule dict_of_res_keys)
    from k have "\<not> patchinfo_re_match (pkg_name c)" "\<not> kernel_live_patch_re_match (pkg_name c)"
      by (simp_all add: kernel_livepatch_not_excluded)
    with n1 n2 pre have "c \<in> snd ` set (foldl (merge_step releasename) ?d (pre @ c # post))"
      unfolding keys [symmetric] by (intro foldl_merge_step_present)
    then show "c \<in> set ps"
      unfolding ps cs0 by simp
  qed
  from c1 c2 c3 show ?thesis by (intro conjI)
qed

theorem exclusion_patterns_witness:
  "fst (get_packages strip_incident livepatch_obs
          \<lparr>name = ''P'', metadata = Some \<lparr>linked_projects_names = [''Q'']\<rparr>\<rparr> True)
     = Inr [\<lparr>pkg_name = ''vim'', pkg_project = ''P''\<rparr>,
            \<lparr>pkg_name = ''kernel-livepatch'', pkg_project = ''Q''\<rparr>]
   \<and> candidates livepatch_obs [\<lparr>name = ''Q'', metadata = Some \<lparr>linked_projects_names = []\<rparr>\<rparr>]
     = [\<lparr>pkg_name = ''patchinfo.1002'', pkg_project = ''Q''\<rparr>,
        \<lparr>pkg_name = ''kernel-livepatch-5_3'', pkg_project = ''Q''\<rparr>,
        \<lparr>pkg_name = ''kernel-livepatch'', pkg_project = ''Q''\<rparr>,
        \<lparr>pkg_name = ''vim'', pkg_project = ''Q''\<rparr>]
   \<and> \<lparr>pkg_name = ''patchinfo.1002'', pkg_project = ''Q''\<rparr>
       \<notin> set (packages_of livepatch_obs ''P'')
   \<and> \<lparr>pkg_name = ''kernel-livepatch'', pkg_project = ''Q''\<rparr>
       \<in> set [\<lparr>pkg_name = ''vim'', pkg_project = ''P''\<rparr>,
              \<lparr>pkg_name = ''kernel-livepatch'', pkg_project = ''Q''\<rparr>]"
proof -
  let ?P = "\<lparr>name = ''P'', metadata = Some \<lparr>linked_projects_names = [''Q'']\<rparr>\<rparr>"
  have e: "fst (get_packages strip_incident livepatch_obs ?P True)
     = Inr [\<lparr>pkg_name = ''vim'', pkg_project = ''P''\<rparr>,
            \<lparr>pkg_name = ''kernel-livepatch'', pkg_project = ''Q''\<rparr>]"
    by (simp add: eval_defs livepatch_obs_def strip_incident_def)
  have c: "candidates livepatch_obs [\<lparr>name = ''Q'', metadata = Some \<lparr>linked_projects_names = []\<rparr>\<rparr>]
     = [\<lparr>pkg_name = ''patchinfo.1002'', pkg_project = ''Q''\<rparr>,
        \<lparr>pkg_name = ''kernel-livepatch-5_3'', pkg_project = ''Q''\<rparr>,
        \<lparr>pkg_name = ''kernel-livepatch'', pkg_project = ''Q''\<rparr>,
        \<lparr>pkg_name = ''vim'', pkg_project = ''Q''\<rparr>]"
    by (simp add: candidates_def packages_of_def livepatch_obs_def)
  have p: "\<lparr>pkg_name = ''patchinfo.1002'', pkg_project = ''Q''\<rparr>
       \<notin> set (packages_of livepatch_obs ''P'')"
    by (simp add: packages_of_def livepatch_obs_def)
  from exclusion_patterns [OF e] e c p show ?thesis
    by simp
qed

section \<open>The linked projects of a project\<close>

text \<open>
  C2: \<^verbatim>\<open>linked_projects(recursive = True)\<close> returns on every service and every link
  graph, cyclic or not: \<open>linked_projects_loop\<close> is a total function, by the termination
  proof above. The run leaves the service as it was but for the GETs \<open>ns\<close> of project
  metadata it adds to the log; no name is fetched twice, there is at most one GET more
  than the service lists projects, and every name fetched is reachable through the
  links. When the run succeeds, the names of the result are \<open>ns\<close>,
  in this order, they are exactly the reachable names, and every project of the result is
  what \<^verbatim>\<open>find\<close> gives for its name. And the run succeeds whenever every reachable
  name resolves, whatever cycles the links form.
\<close>

theorem linked_projects_recursive_closure:
  "\<exists>ns. snd (linked_projects w md True) = w\<lparr>requests := requests w @ map GET_meta ns\<rparr>
     \<and> distinct ns
     \<and> length ns \<le> Suc (length (prj_meta w))
     \<and> set ns \<subseteq> linked_closure w (linked_projects_names md)
     \<and> (\<forall>ps. fst (linked_projects w md True) = Inr ps \<longrightarrow>
            map name ps = ns
          \<and> set ns = linked_closure w (linked_projects_names md)
          \<and> (\<forall>p \<in> set ps. fst (find_project w (name p)) = Inr p))
     \<and> ((\<forall>n \<in> linked_closure w (linked_projects_names md).
            \<exists>p. fst (find_project w n) = Inr p) \<longrightarrow>
         (\<exists>ps. fst (linked_projects w md True) = Inr ps))"
proof -
  let ?seed = "linked_projects_names md"
  let ?ns = "walk_fetched w True ?seed []"
  have c1: "snd (linked_projects w md True) = w\<lparr>requests := requests w @ map GET_meta ?ns\<rparr>"
    by (simp add: linked_projects_eq)
  have c2: "distinct ?ns"
    using walk_fetched_distinct [of w True ?seed "[]"] by simp
  have closed: "\<forall>m \<in> linked_closure w ?seed. set (links_of w m) \<subseteq> linked_closure w ?seed"
    by (auto intro: linked_closure.linked)
  have "set ?seed \<subseteq> linked_closure w ?seed"
    by (auto intro: linked_closure.direct)
  then have c3: "set ?ns \<subseteq> linked_closure w ?seed"
    using closed by (rule walk_fetched_closed)
  have c4: "\<forall>ps. fst (linked_projects w md True) = Inr ps \<longrightarrow>
            map name ps = ?ns
          \<and> set ?ns = linked_closure w ?seed
          \<and> (\<forall>p \<in> set ps. fst (find_project w (name p)) = Inr p)"
  proof (intro allI impI)
    fix ps assume "fst (linked_projects w md True) = Inr ps"
    then have r: "walk_result w True ?seed [] = Inr ps"
      by (simp add: linked_projects_eq)
    from walk_result_Inr [OF r] have n: "map name ps = ?ns"
      and f: "\<forall>p \<in> set ps. fst (find_project w (name p)) = Inr p"
      by simp_all
    have "linked_closure w ?seed \<subseteq> name ` set ps"
      by (rule walk_result_complete [OF r]) simp_all
    also have "name ` set ps = set ?ns"
      using n by (metis list.set_map)
    finally have "set ?ns = linked_closure w ?seed"
      using c3 by blast
    with n f show "map name ps = ?ns \<and> set ?ns = linked_closure w ?seed
          \<and> (\<forall>p \<in> set ps. fst (find_project w (name p)) = Inr p)"
      by (intro conjI)
  qed
  have c5: "length ?ns \<le> Suc (length (prj_meta w))"
    by (rule walk_fetched_bounded)
  have c6: "(\<forall>n \<in> linked_closure w ?seed. \<exists>p. fst (find_project w n) = Inr p) \<longrightarrow>
         (\<exists>ps. fst (linked_projects w md True) = Inr ps)"
  proof
    assume "\<forall>n \<in> linked_closure w ?seed. \<exists>p. fst (find_project w n) = Inr p"
    then have "\<exists>ps. walk_result w True ?seed [] = Inr ps"
      by (rule walk_succeeds_recursive)
    then show "\<exists>ps. fst (linked_projects w md True) = Inr ps"
      by (simp add: linked_projects_eq)
  qed
  from c1 c2 c5 c3 c4 c6 have "snd (linked_projects w md True) = w\<lparr>requests := requests w @ map GET_meta ?ns\<rparr>
     \<and> distinct ?ns
     \<and> length ?ns \<le> Suc (length (prj_meta w))
     \<and> set ?ns \<subseteq> linked_closure w ?seed
     \<and> (\<forall>ps. fst (linked_projects w md True) = Inr ps \<longrightarrow>
            map name ps = ?ns
          \<and> set ?ns = linked_closure w ?seed
          \<and> (\<forall>p \<in> set ps. fst (find_project w (name p)) = Inr p))
     \<and> ((\<forall>n \<in> linked_closure w ?seed. \<exists>p. fst (find_project w n) = Inr p) \<longrightarrow>
         (\<exists>ps. fst (linked_projects w md True) = Inr ps))"
    by (intro conjI)
  then show ?thesis by (intro exI)
qed

theorem linked_projects_recursive_closure_witness:
  "linked_projects cycle_obs \<lparr>linked_projects_names = [''X'', ''Y'', ''Y'']\<rparr> True
     = (Inr [\<lparr>name = ''X'', metadata = Some \<lparr>linked_projects_names = [''X'', ''Y'', ''Y'']\<rparr>\<rparr>,
             \<lparr>name = ''Y'', metadata = Some \<lparr>linked_projects_names = [''X'', ''Z'']\<rparr>\<rparr>,
             \<lparr>name = ''Z'', metadata = Some \<lparr>linked_projects_names = []\<rparr>\<rparr>],
        cycle_obs\<lparr>requests := [GET_meta ''X'', GET_meta ''Y'', GET_meta ''Z'']\<rparr>)
   \<and> linked_closure cycle_obs [''X'', ''Y'', ''Y''] = {''X'', ''Y'', ''Z''}
   \<and> (\<exists>p. fst (find_project cycle_obs ''X'') = Inr p)
   \<and> (\<exists>p. fst (find_project cycle_obs ''Y'') = Inr p)
   \<and> (\<exists>p. fst (find_project cycle_obs ''Z'') = Inr p)
   \<and> (\<exists>ps. fst (linked_projects cycle_obs \<lparr>linked_projects_names = [''X'', ''Y'', ''Y'']\<rparr> True)
             = Inr ps)"
proof -
  let ?md = "\<lparr>linked_projects_names = [''X'', ''Y'', ''Y'']\<rparr>"
  have e: "linked_projects cycle_obs ?md True
     = (Inr [\<lparr>name = ''X'', metadata = Some \<lparr>linked_projects_names = [''X'', ''Y'', ''Y'']\<rparr>\<rparr>,
             \<lparr>name = ''Y'', metadata = Some \<lparr>linked_projects_names = [''X'', ''Z'']\<rparr>\<rparr>,
             \<lparr>name = ''Z'', metadata = Some \<lparr>linked_projects_names = []\<rparr>\<rparr>],
        cycle_obs\<lparr>requests := [GET_meta ''X'', GET_meta ''Y'', GET_meta ''Z'']\<rparr>)"
    by (simp add: eval_defs cycle_obs_def)
  let ?ps = "[\<lparr>name = ''X'', metadata = Some \<lparr>linked_projects_names = [''X'', ''Y'', ''Y'']\<rparr>\<rparr>,
             \<lparr>name = ''Y'', metadata = Some \<lparr>linked_projects_names = [''X'', ''Z'']\<rparr>\<rparr>,
             \<lparr>name = ''Z'', metadata = Some \<lparr>linked_projects_names = []\<rparr>\<rparr>]"
  from linked_projects_recursive_closure [of cycle_obs ?md] obtain ns where all:
    "snd (linked_projects cycle_obs ?md True)
       = cycle_obs\<lparr>requests := requests cycle_obs @ map GET_meta ns\<rparr>
     \<and> distinct ns
     \<and> length ns \<le> Suc (length (prj_meta cycle_obs))
     \<and> set ns \<subseteq> linked_closure cycle_obs (linked_projects_names ?md)
     \<and> (\<forall>ps. fst (linked_projects cycle_obs ?md True) = Inr ps \<longrightarrow>
            map name ps = ns
          \<and> set ns = linked_closure cycle_obs (linked_projects_names ?md)
          \<and> (\<forall>p \<in> set ps. fst (find_project cycle_obs (name p)) = Inr p))
     \<and> ((\<forall>n \<in> linked_closure cycle_obs (linked_projects_names ?md).
            \<exists>p. fst (find_project cycle_obs n) = Inr p) \<longrightarrow>
         (\<exists>ps. fst (linked_projects cycle_obs ?md True) = Inr ps))" ..
  then have "fst (linked_projects cycle_obs ?md True) = Inr ?ps \<longrightarrow>
            map name ?ps = ns
          \<and> set ns = linked_closure cycle_obs (linked_projects_names ?md)
          \<and> (\<forall>p \<in> set ?ps. fst (find_project cycle_obs (name p)) = Inr p)"
    by (elim conjE allE [of _ ?ps])
  moreover have "fst (linked_projects cycle_obs ?md True) = Inr ?ps"
    by (simp only: e fst_conv)
  ultimately have "map name ?ps = ns
          \<and> set ns = linked_closure cycle_obs (linked_projects_names ?md)
          \<and> (\<forall>p \<in> set ?ps. fst (find_project cycle_obs (name p)) = Inr p)"
    by (rule mp)
  then have "map name ?ps = ns" "set ns = linked_closure cycle_obs (linked_projects_names ?md)"
    by (rule conjunct1, rule conjunct2 [THEN conjunct1])
  then have "linked_closure cycle_obs [''X'', ''Y'', ''Y''] = set (map name ?ps)"
    by simp
  also have "\<dots> = {''X'', ''Y'', ''Z''}"
    by simp
  finally have cl: "linked_closure cycle_obs [''X'', ''Y'', ''Y''] = {''X'', ''Y'', ''Z''}" .
  have fx: "\<exists>p. fst (find_project cycle_obs ''X'') = Inr p"
    and fy: "\<exists>p. fst (find_project cycle_obs ''Y'') = Inr p"
    and fz: "\<exists>p. fst (find_project cycle_obs ''Z'') = Inr p"
    by (simp_all add: eval_defs cycle_obs_def)
  from fx fy fz have "\<forall>n \<in> linked_closure cycle_obs (linked_projects_names ?md).
            \<exists>p. fst (find_project cycle_obs n) = Inr p"
    by (simp add: cl)
  moreover from all have "(\<forall>n \<in> linked_closure cycle_obs (linked_projects_names ?md).
            \<exists>p. fst (find_project cycle_obs n) = Inr p) \<longrightarrow>
         (\<exists>ps. fst (linked_projects cycle_obs ?md True) = Inr ps)"
    by (elim conjE)
  ultimately have s: "\<exists>ps. fst (linked_projects cycle_obs ?md True) = Inr ps"
    by (elim impE)
  from e cl fx fy fz s show ?thesis by (intro conjI)
qed

text \<open>
  C6: \<^verbatim>\<open>linked_projects(recursive = False)\<close> fetches a prefix of the directly linked
  names, deduplicated in first-occurrence order, and nothing else. When it succeeds, the
  names of the result are all of them, in that order, each fetched once, and every
  project of the result is what \<^verbatim>\<open>find\<close> gives for its name. And it succeeds
  whenever every directly linked name resolves.
\<close>

theorem linked_projects_not_recursive:
  "(\<exists>k. snd (linked_projects w md False)
          = w\<lparr>requests := requests w
                @ map GET_meta (take k (first_occurrences (linked_projects_names md)))\<rparr>)
   \<and> (\<forall>ps. fst (linked_projects w md False) = Inr ps \<longrightarrow>
          map name ps = first_occurrences (linked_projects_names md)
        \<and> (\<forall>p \<in> set ps. fst (find_project w (name p)) = Inr p)
        \<and> snd (linked_projects w md False)
            = w\<lparr>requests := requests w
                  @ map GET_meta (first_occurrences (linked_projects_names md))\<rparr>)
   \<and> distinct (first_occurrences (linked_projects_names md))
   \<and> set (first_occurrences (linked_projects_names md)) = set (linked_projects_names md)
   \<and> ((\<forall>n \<in> set (linked_projects_names md). \<exists>p. fst (find_project w n) = Inr p) \<longrightarrow>
       (\<exists>ps. fst (linked_projects w md False) = Inr ps))"
proof -
  let ?seed = "linked_projects_names md"
  from walk_fetched_not_recursive [of "[]" ?seed w] obtain rest where
    fo: "first_occurrences ?seed = walk_fetched w False ?seed [] @ rest"
    and fin: "\<forall>ps. walk_result w False ?seed [] = Inr ps \<longrightarrow> rest = []"
    by auto
  from fo have "walk_fetched w False ?seed []
      = take (length (walk_fetched w False ?seed [])) (first_occurrences ?seed)"
    by simp
  then have "snd (linked_projects w md False)
          = w\<lparr>requests := requests w
                @ map GET_meta (take (length (walk_fetched w False ?seed []))
                     (first_occurrences ?seed))\<rparr>"
    by (simp add: linked_projects_eq)
  then have c1: "\<exists>k. snd (linked_projects w md False)
          = w\<lparr>requests := requests w @ map GET_meta (take k (first_occurrences ?seed))\<rparr>"
    by (intro exI)
  have c2: "\<forall>ps. fst (linked_projects w md False) = Inr ps \<longrightarrow>
          map name ps = first_occurrences ?seed
        \<and> (\<forall>p \<in> set ps. fst (find_project w (name p)) = Inr p)
        \<and> snd (linked_projects w md False)
            = w\<lparr>requests := requests w @ map GET_meta (first_occurrences ?seed)\<rparr>"
  proof (intro allI impI)
    fix ps assume "fst (linked_projects w md False) = Inr ps"
    then have r: "walk_result w False ?seed [] = Inr ps"
      by (simp add: linked_projects_eq)
    with fin fo have f: "walk_fetched w False ?seed [] = first_occurrences ?seed"
      by simp
    from walk_result_Inr [OF r] f
    show "map name ps = first_occurrences ?seed
        \<and> (\<forall>p \<in> set ps. fst (find_project w (name p)) = Inr p)
        \<and> snd (linked_projects w md False)
            = w\<lparr>requests := requests w @ map GET_meta (first_occurrences ?seed)\<rparr>"
      by (simp add: linked_projects_eq)
  qed
  have c3: "(\<forall>n \<in> set ?seed. \<exists>p. fst (find_project w n) = Inr p) \<longrightarrow>
       (\<exists>ps. fst (linked_projects w md False) = Inr ps)"
  proof
    assume "\<forall>n \<in> set ?seed. \<exists>p. fst (find_project w n) = Inr p"
    then have "\<exists>ps. walk_result w False ?seed [] = Inr ps"
      by (rule walk_succeeds_not_recursive)
    then show "\<exists>ps. fst (linked_projects w md False) = Inr ps"
      by (simp add: linked_projects_eq)
  qed
  have c4: "distinct (first_occurrences ?seed)" "set (first_occurrences ?seed) = set ?seed"
    by simp_all
  from c1 c2 c4 c3 show ?thesis by (intro conjI)
qed

theorem linked_projects_not_recursive_witness:
  "fst (linked_projects cycle_obs \<lparr>linked_projects_names = [''X'', ''Y'', ''Y'']\<rparr> False)
     = Inr [\<lparr>name = ''X'', metadata = Some \<lparr>linked_projects_names = [''X'', ''Y'', ''Y'']\<rparr>\<rparr>,
            \<lparr>name = ''Y'', metadata = Some \<lparr>linked_projects_names = [''X'', ''Z'']\<rparr>\<rparr>]
   \<and> first_occurrences [''X'', ''Y'', ''Y''] = [''X'', ''Y'']
   \<and> snd (linked_projects cycle_obs \<lparr>linked_projects_names = [''X'', ''Y'', ''Y'']\<rparr> False)
     = cycle_obs\<lparr>requests := requests cycle_obs @ map GET_meta [''X'', ''Y'']\<rparr>
   \<and> (\<exists>p. fst (find_project cycle_obs ''X'') = Inr p)
   \<and> (\<exists>p. fst (find_project cycle_obs ''Y'') = Inr p)
   \<and> (\<exists>ps. fst (linked_projects cycle_obs \<lparr>linked_projects_names = [''X'', ''Y'', ''Y'']\<rparr> False)
             = Inr ps)"
proof -
  let ?md = "\<lparr>linked_projects_names = [''X'', ''Y'', ''Y'']\<rparr>"
  have e: "fst (linked_projects cycle_obs ?md False)
     = Inr [\<lparr>name = ''X'', metadata = Some \<lparr>linked_projects_names = [''X'', ''Y'', ''Y'']\<rparr>\<rparr>,
            \<lparr>name = ''Y'', metadata = Some \<lparr>linked_projects_names = [''X'', ''Z'']\<rparr>\<rparr>]"
    by (simp add: eval_defs cycle_obs_def)
  have f: "first_occurrences [''X'', ''Y'', ''Y''] = [''X'', ''Y'']"
    by simp
  have fx: "\<exists>p. fst (find_project cycle_obs ''X'') = Inr p"
    and fy: "\<exists>p. fst (find_project cycle_obs ''Y'') = Inr p"
    by (simp_all add: eval_defs cycle_obs_def)
  note inst = linked_projects_not_recursive [of cycle_obs ?md]
  from inst have "\<forall>ps. fst (linked_projects cycle_obs ?md False) = Inr ps \<longrightarrow>
          map name ps = first_occurrences (linked_projects_names ?md)
        \<and> (\<forall>p \<in> set ps. fst (find_project cycle_obs (name p)) = Inr p)
        \<and> snd (linked_projects cycle_obs ?md False)
            = cycle_obs\<lparr>requests := requests cycle_obs
                  @ map GET_meta (first_occurrences (linked_projects_names ?md))\<rparr>"
    by (elim conjE)
  with e f have s: "snd (linked_projects cycle_obs ?md False)
     = cycle_obs\<lparr>requests := requests cycle_obs @ map GET_meta [''X'', ''Y'']\<rparr>"
    by simp
  from fx fy have "\<forall>n \<in> set (linked_projects_names ?md).
      \<exists>p. fst (find_project cycle_obs n) = Inr p"
    by simp
  moreover from inst have "(\<forall>n \<in> set (linked_projects_names ?md).
      \<exists>p. fst (find_project cycle_obs n) = Inr p) \<longrightarrow>
       (\<exists>ps. fst (linked_projects cycle_obs ?md False) = Inr ps)"
    by (elim conjE)
  ultimately have r: "\<exists>ps. fst (linked_projects cycle_obs ?md False) = Inr ps"
    by (elim impE)
  from e f s fx fy r show ?thesis by (intro conjI)
qed




end
